theory Spec2Isabelle
  imports Complex_Main "HOL-Library.Monad_Syntax" "HOL-Library.Log_Nat"
begin

section \<open>Streaming numerical engine of openseize (core/numerical.py)\<close>

text \<open>
  The arrays of the source are n-dimensional; every operation modelled here (padding,
  slicing, splitting, the transforms, the filters) acts along one designated axis and
  independently on every fibre along that axis. The model therefore carries one fibre:
  an array is the list of its samples along \<open>axis\<close>, and \<open>arr.shape[axis]\<close> is the
  length of that list. Floating-point numbers are idealised as reals (exact arithmetic).
\<close>

subsection \<open>Errors, generator outcomes\<close>

datatype error = ValueError | UnboundLocalError | ZeroDivisionError | QueueError

text \<open>
  How the iteration of a generator ended: the body ran to its end (\<open>Completed\<close>), an
  exception left it (\<open>Raised\<close>), or the consumer stopped asking while the generator was
  not finished (\<open>Suspended\<close>: paused at a \<open>yield\<close>, or never started).
\<close>

datatype status = Completed | Raised error | Suspended

text \<open>
  A consumer is described by the number of times it calls \<open>next\<close>: \<open>None\<close> iterates until
  the generator ends, \<open>Some k\<close> calls \<open>next\<close> at most \<open>k\<close> times.
\<close>

type_synonym budget = "nat option"

definition stop_after :: "budget \<Rightarrow> bool" where
  "stop_after b = (case b of None \<Rightarrow> False | Some k \<Rightarrow> k \<le> 1)"

definition spend :: "budget \<Rightarrow> budget" where
  "spend b = (case b of None \<Rightarrow> None | Some k \<Rightarrow> Some (k - 1))"

subsection \<open>Python slicing\<close>

text \<open>
  \<open>xs[a:b]\<close> with step 1: a missing bound is the end of the list, a negative bound
  counts from the end, and both are clipped to the list.
\<close>

definition py_index :: "int \<Rightarrow> nat \<Rightarrow> nat" where
  "py_index i n = (if i < 0 then nat (max (i + int n) 0) else min (nat i) n)"

definition py_start :: "int option \<Rightarrow> nat \<Rightarrow> nat" where
  "py_start a n = (case a of None \<Rightarrow> 0 | Some i \<Rightarrow> py_index i n)"

definition py_stop :: "int option \<Rightarrow> nat \<Rightarrow> nat" where
  "py_stop b n = (case b of None \<Rightarrow> n | Some j \<Rightarrow> py_index j n)"

definition py_slice :: "int option \<Rightarrow> int option \<Rightarrow> 'a list \<Rightarrow> 'a list" where
  "py_slice a b xs =
     (let s = py_start a (length xs); e = py_stop b (length xs)
      in take (e - s) (drop s xs))"

subsection \<open>Producer and array helpers\<close>

text \<open>
  Modelled from the spec: the class \<open>Producer\<close> (core/producer.py is not among the
  sources). A producer is a logical sequence along \<open>axis\<close> exposed through chunks of
  \<open>chunksize\<close> samples, the last one possibly shorter; \<open>chunksize\<close> is mutable and
  applies to the chunks requested after a change; concatenating the chunks in yield
  order gives the logical sequence. A non-positive chunksize is rejected by the
  producer, so \<open>chop 0\<close> stands for no iteration at all.
\<close>

record producer =
  pdata :: "real list"
  axis :: int
  chunksize :: nat

definition shape :: "producer \<Rightarrow> nat" where
  "shape pro = length (pdata pro)"

fun chop :: "nat \<Rightarrow> 'a list \<Rightarrow> 'a list list" where
  "chop n xs = (if n = 0 \<or> xs = [] then [] else take n xs # chop n (drop n xs))"

declare chop.simps [simp del]

definition iterate :: "producer \<Rightarrow> real list list" where
  "iterate pro = chop (chunksize pro) (pdata pro)"

text \<open>
  Modelled from the spec: \<open>pad_along_axis(arr, [before, after], axis)\<close> and
  \<open>slice_along_axis(arr, start, stop, axis)\<close> of core/arraytools.py (not among the
  sources): zero padding at both ends of the axis, and \<open>arr[start:stop]\<close> along the
  axis. The calls modelled pass bounds that are not negative.
\<close>

definition pad_along_axis :: "real list \<Rightarrow> nat \<Rightarrow> nat \<Rightarrow> real list" where
  "pad_along_axis arr before after = replicate before 0 @ arr @ replicate after 0"

definition slice_along_axis :: "'a list \<Rightarrow> nat \<Rightarrow> nat \<Rightarrow> 'a list" where
  "slice_along_axis arr start stop = py_slice (Some (int start)) (Some (int stop)) arr"

subsection \<open>Overlap-add convolution\<close>

text \<open>\<open>ceil(log2 m)\<close> for \<open>m \<ge> 1\<close>: the least \<open>k\<close> with \<open>m \<le> 2 ^ k\<close>.\<close>

fun clog2 :: "nat \<Rightarrow> nat" where
  "clog2 m = (if m \<le> 1 then 0 else Suc (clog2 ((m + 1) div 2)))"

declare clog2.simps [simp del]

text \<open>
  \<open>optimal_nffts(arr) = int(8 * 2 ** ceil(log2(len(arr))))\<close>. For an empty array numpy
  gives \<open>log2 0 = -inf\<close> and \<open>2 ** -inf = 0.0\<close>, hence 0.
\<close>

definition optimal_nffts :: "nat \<Rightarrow> nat" where
  "optimal_nffts m = (if m = 0 then 0 else 8 * 2 ^ clog2 m)"

text \<open>
  \<open>fft(x, n)\<close> crops or zero-pads \<open>x\<close> to \<open>n\<close> points. By the convolution theorem
  \<open>ifft(fft(x, n) * fft(h, n)).real\<close> is, in exact arithmetic, the cyclic convolution
  of the two \<open>n\<close>-point sequences; the rounding of the floating-point transforms is not
  modelled. numpy rejects \<open>n < 1\<close> with a ValueError.
\<close>

definition fit :: "nat \<Rightarrow> real list \<Rightarrow> real list" where
  "fit n xs = take n xs @ replicate (n - length xs) 0"

definition circ_conv :: "nat \<Rightarrow> real list \<Rightarrow> real list \<Rightarrow> real list" where
  "circ_conv n xs hs =
     (let a = fit n xs; b = fit n hs
      in map (\<lambda>i. \<Sum>k\<leftarrow>[0..<n]. a ! k * b ! ((i + n - k) mod n)) [0..<n])"

definition modes :: "string list" where
  "modes = [''full'', ''same'', ''valid'']"

text \<open>
  \<open>_oa_mode\<close>: the slices applied to segment 0 (\<open>fst\<close>) and to a later segment (\<open>snd\<close>)
  for each mode, as the dictionary \<open>cuts\<close> holds them.
\<close>

definition cuts :: "nat \<Rightarrow> nat \<Rightarrow> string \<Rightarrow> (int option \<times> int option) \<times> (int option \<times> int option)" where
  "cuts ns win_len mode =
     (if mode = ''full'' then ((None, None), (None, None))
      else if mode = ''same'' then
        ((Some ((int win_len - 1) div 2), None),
         (None, Some (int ns - (int win_len - 1) div 2)))
      else
        ((Some (int win_len - 1), None),
         (None, Some (int ns - int win_len + 1))))"

definition oa_mode :: "real list \<Rightarrow> nat \<Rightarrow> nat \<Rightarrow> string \<Rightarrow> error + real list" where
  "oa_mode segment idx win_len mode =
     (if mode \<notin> set modes then Inl ValueError
      else
        let ns = length segment;
            c = (if idx > 0 then snd (cuts ns win_len mode) else fst (cuts ns win_len mode))
        in Inr (py_slice (fst c) (snd c) segment))"

text \<open>
  \<open>y[0:M-1] += overlap\<close>. On every path of \<open>oaconvolve\<close> the segment has at least
  \<open>M - 1\<close> samples and the overlap has exactly \<open>M - 1\<close>.
\<close>

definition add_overlap :: "nat \<Rightarrow> real list \<Rightarrow> real list \<Rightarrow> real list" where
  "add_overlap m y ov = map2 (+) (take m y) ov @ drop m y"

text \<open>
  One pass of the body of the \<open>for\<close> loop of \<open>oaconvolve\<close>, up to its \<open>yield\<close>. The
  local \<open>new_overlap\<close> is bound only by the \<open>split\<close> branch: it is an option, and
  reading it unbound raises UnboundLocalError. The result is the yielded segment with
  the new values of \<open>overlap\<close> and \<open>new_overlap\<close>.
\<close>

definition oa_body ::
  "real list \<Rightarrow> string \<Rightarrow> nat \<Rightarrow> nat \<Rightarrow> nat \<Rightarrow> nat \<Rightarrow> real list \<Rightarrow> real list option \<Rightarrow>
   real list \<Rightarrow> error + (real list \<times> real list \<times> real list option)" where
  "oa_body win mode nfft L nsegments segment_num overlap new_overlap subarr =
     (let M = length win;
          x = pad_along_axis subarr 0 (M - 1);
          y = circ_conv nfft x win;
          y1 = (if segment_num + 1 < nsegments then take L y
                else slice_along_axis y 0 (length subarr + M - 1));
          new_overlap1 = (if segment_num + 1 < nsegments then Some (drop L y)
                          else new_overlap);
          y2 = add_overlap (M - 1) y1 overlap
      in case new_overlap1 of
           None \<Rightarrow> Inl UnboundLocalError
         | Some ov \<Rightarrow>
             (if segment_num = 0 \<or> segment_num + 1 = nsegments then
                (case oa_mode y2 segment_num (length win) mode of
                   Inl e \<Rightarrow> Inl e
                 | Inr y3 \<Rightarrow> Inr (y3, ov, Some ov))
              else Inr (y2, ov, Some ov)))"

text \<open>
  The \<open>for\<close> loop over the chunks of the producer, as the consumer drives it: each
  yielded segment answers one call of \<open>next\<close>, and the loop goes on only if the consumer
  calls again.
\<close>

fun oa_loop ::
  "real list \<Rightarrow> string \<Rightarrow> nat \<Rightarrow> nat \<Rightarrow> nat \<Rightarrow> budget \<Rightarrow> nat \<Rightarrow> real list \<Rightarrow>
   real list option \<Rightarrow> real list list \<Rightarrow> real list list \<times> status" where
  "oa_loop win mode nfft L nsegments b segment_num overlap new_overlap [] = ([], Completed)"
| "oa_loop win mode nfft L nsegments b segment_num overlap new_overlap (subarr # rest) =
     (case oa_body win mode nfft L nsegments segment_num overlap new_overlap subarr of
        Inl e \<Rightarrow> ([], Raised e)
      | Inr (y, overlap', new_overlap') \<Rightarrow>
          if stop_after b then ([y], Suspended)
          else
            let (ys, st) = oa_loop win mode nfft L nsegments (spend b) (Suc segment_num)
                             overlap' new_overlap' rest
            in (y # ys, st))"

text \<open>
  \<open>oaconvolve(pro, win, axis, mode)\<close> driven by a consumer with budget \<open>b\<close>: the yielded
  segments, how the iteration ended, and the producer object as it is left.
\<close>

definition oaconvolve ::
  "budget \<Rightarrow> producer \<Rightarrow> real list \<Rightarrow> string \<Rightarrow> real list list \<times> status \<times> producer" where
  "oaconvolve b pro win mode =
     (if b = Some 0 then ([], Suspended, pro)
      else
        let isize = chunksize pro;
            nfft = optimal_nffts (length win);
            M = length win
        in if nfft = 0 then ([], Raised ValueError, pro)
           else
             let L = nfft + 1 - M;
                 nsegments = (shape pro + L - 1) div L;
                 overlap = replicate (M - 1) 0;
                 pro1 = pro\<lparr>chunksize := L\<rparr>;
                 (ys, st) = oa_loop win mode nfft L nsegments b 0 overlap None (iterate pro1)
             in (ys, st, if st = Completed then pro1\<lparr>chunksize := isize\<rparr> else pro1))"

text \<open>
  The reference of the claims: the discrete convolution of the whole signal with the
  kernel, and numpy's three boundary modes (\<open>convolve_slicer\<close> of the same module).
\<close>

definition convolve_full :: "real list \<Rightarrow> real list \<Rightarrow> real list" where
  "convolve_full xs hs =
     (if xs = [] \<or> hs = [] then []
      else map (\<lambda>n. \<Sum>k\<leftarrow>[0..<length hs]. if k \<le> n \<and> n - k < length xs
                                              then hs ! k * xs ! (n - k) else 0)
             [0..<length xs + length hs - 1])"

definition convolve_slicer :: "real list \<Rightarrow> nat \<Rightarrow> nat \<Rightarrow> string \<Rightarrow> real list" where
  "convolve_slicer arr m n mode =
     (let p = max m n; q = min m n
      in if mode = ''full'' then arr
         else if mode = ''same'' then
           slice_along_axis arr ((q - 1) div 2) ((q - 1) div 2 + p)
         else if mode = ''valid'' then
           slice_along_axis arr (q - 1) ((n + m - 1) - (q - 1))
         else arr)"

subsection \<open>Second-order-section filtering\<close>

text \<open>
  \<open>scipy.signal.sosfilt(sos, x, axis, zi)\<close> is a library routine. Each row of \<open>sos\<close> is
  \<open>(b0, b1, b2, a0, a1, a2)\<close>; the routine rejects a row whose \<open>a0\<close> is not 1 and a
  state whose number of sections differs from that of \<open>sos\<close>; it runs every sample
  through the sections in order (direct form II transposed), each section holding two
  delay values, and returns the output with the final delay values.
\<close>

type_synonym sos_row = "real \<times> real \<times> real \<times> real \<times> real \<times> real"
type_synonym zstate = "real \<times> real"

fun section_step :: "sos_row \<Rightarrow> real \<Rightarrow> zstate \<Rightarrow> real \<times> zstate" where
  "section_step (b0, b1, b2, a0, a1, a2) x (z0, z1) =
     (let y = b0 * x + z0 in (y, (b1 * x - a1 * y + z1, b2 * x - a2 * y)))"

fun cascade :: "sos_row list \<Rightarrow> real \<Rightarrow> zstate list \<Rightarrow> real \<times> zstate list" where
  "cascade (s # ss) x (z # zs) =
     (let (y, z') = section_step s x z; (y', zs') = cascade ss y zs in (y', z' # zs'))"
| "cascade ss x zs = (x, [])"

fun filt_samples :: "sos_row list \<Rightarrow> real list \<Rightarrow> zstate list \<Rightarrow> real list \<times> zstate list" where
  "filt_samples sos [] z = ([], z)"
| "filt_samples sos (x # xs) z =
     (let (y, z') = cascade sos x z; (ys, zf) = filt_samples sos xs z' in (y # ys, zf))"

definition valid_sos :: "sos_row list \<Rightarrow> bool" where
  "valid_sos sos = list_all (\<lambda>(b0, b1, b2, a0, a1, a2). a0 = 1) sos"

definition sps_sosfilt ::
  "sos_row list \<Rightarrow> real list \<Rightarrow> zstate list \<Rightarrow> error + (real list \<times> zstate list)" where
  "sps_sosfilt sos x zi =
     (if \<not> valid_sos sos \<or> length zi \<noteq> length sos then Inl ValueError
      else Inr (filt_samples sos x zi))"

text \<open>The \<open>for\<close> loop of \<open>sosfilt\<close>: filter a chunk, keep the state, yield.\<close>

fun sosfilt_loop :: "sos_row list \<Rightarrow> zstate list \<Rightarrow> real list list \<Rightarrow> real list list \<times> status" where
  "sosfilt_loop sos z [] = ([], Completed)"
| "sosfilt_loop sos z (subarr # rest) =
     (case sps_sosfilt sos subarr z of
        Inl e \<Rightarrow> ([], Raised e)
      | Inr (y, z') \<Rightarrow> (let (ys, st) = sosfilt_loop sos z' rest in (y # ys, st)))"

text \<open>
  \<open>sosfilt(pro, sos, chunksize, axis, zi=None)\<close> iterated to its end. The argument
  \<open>chunksize\<close> is not read by the body.
\<close>

definition sosfilt :: "producer \<Rightarrow> sos_row list \<Rightarrow> zstate list option \<Rightarrow> real list list \<times> status" where
  "sosfilt pro sos zi =
     (let z = (case zi of None \<Rightarrow> replicate (length sos) (0, 0) | Some z0 \<Rightarrow> z0)
      in sosfilt_loop sos z (iterate pro))"

subsection \<open>Polyphase resampling: the working chunk size\<close>

text \<open>
  The statements of \<open>polyphase_resample(pro, L, M, fs, chunksize, fir, axis)\<close> that
  come before its first read of a chunk (the guard on \<open>M\<close>, the clamp of \<open>csize\<close>, the
  default \<open>fs // max(L, M)\<close>, the rounding of \<open>csize\<close>), on Python integers; \<open>N\<close> is
  \<open>pro.shape[axis]\<close> and \<open>csize0\<close> the argument \<open>chunksize\<close>. The filter design \<open>fir(...)\<close> between them belongs to a
  collaborator and does not touch \<open>csize\<close>. \<open>int(np.ceil(csize / M) * M)\<close> is the
  ceiling of the quotient times \<open>M\<close>.
\<close>

definition polyphase_csize :: "int \<Rightarrow> int \<Rightarrow> int \<Rightarrow> int \<Rightarrow> error + int" where
  "polyphase_csize L M csize0 N =
     (if M \<ge> N then Inl ValueError
      else
        let csize = (if csize0 > N div 3 then N div 3 else csize0)
        in if max L M = 0 then Inl ZeroDivisionError
           else if M = 0 then Inl ZeroDivisionError
           else if csize mod M > 0 then Inr (- ((- csize) div M) * M)
           else Inr csize)"

subsection \<open>Windowed spectral estimation\<close>

text \<open>
  Modelled from the spec: the class \<open>FIFOArray\<close> (core/queues.py is not among the
  sources). \<open>put\<close> appends a chunk along the axis, \<open>qsize\<close> is the number of samples
  buffered, \<open>get\<close> removes \<open>chunksize\<close> samples from the front and fails when fewer are
  buffered. Only the queue left by \<open>get\<close> is used by the engine.
\<close>

definition fifo_put :: "real list \<Rightarrow> real list \<Rightarrow> real list" where
  "fifo_put q chunk = q @ chunk"

definition qsize :: "real list \<Rightarrow> nat" where
  "qsize q = length q"

definition fifo_get :: "int \<Rightarrow> real list \<Rightarrow> error + real list" where
  "fifo_get c q = (if int (qsize q) < c then Inl QueueError else Inr (drop (nat c) q))"

text \<open>
  A Python float is an IEEE double. Its value is a rational number here, and an
  operation on floats is the exact operation followed by the rounding to the nearest
  double, ties to the even significand. \<open>binade q\<close> is the floor of the binary
  logarithm of \<open>q > 0\<close>; a double has 53 significant bits. The exponent range is taken
  as unbounded: the index computations below form no value that overflows, and a value
  below the smallest normal double truncates to 0 with or without it.
\<close>

definition round_even :: "rat \<Rightarrow> int" where
  "round_even m =
     (let f = \<lfloor>m\<rfloor>; d = m - of_int f
      in if d < 1 / 2 then f else if 1 / 2 < d then f + 1
         else if even f then f else f + 1)"

definition binade :: "rat \<Rightarrow> int" where
  "binade q =
     (let k = bitlen (fst (quotient_of q)) - bitlen (snd (quotient_of q))
      in if 2 powi k \<le> q then k else k - 1)"

definition round_double :: "rat \<Rightarrow> rat" where
  "round_double q =
     (if q = 0 then 0
      else sgn q * (of_int (round_even (\<bar>q\<bar> / 2 powi (binade \<bar>q\<bar> - 52))) * 2 powi (binade \<bar>q\<bar> - 52)))"

text \<open>
  \<open>float(n)\<close> of an integer, the sum, difference and product of two floats, and the
  floor division \<open>a // b\<close> of two floats, taken as the floor of their exact quotient.
\<close>

definition float_of_int :: "int \<Rightarrow> rat" where
  "float_of_int n = round_double (of_int n)"

definition fadd :: "rat \<Rightarrow> rat \<Rightarrow> rat" where
  "fadd a b = round_double (a + b)"

definition fsub :: "rat \<Rightarrow> rat \<Rightarrow> rat" where
  "fsub a b = round_double (a - b)"

definition fmul :: "rat \<Rightarrow> rat \<Rightarrow> rat" where
  "fmul a b = round_double (a * b)"

definition float_floordiv :: "rat \<Rightarrow> rat \<Rightarrow> rat" where
  "float_floordiv a b = round_double (of_int \<lfloor>a / b\<rfloor>)"

text \<open>
  \<open>int(x)\<close> of a float truncates towards zero. \<open>noverlap = int(nfft * overlap)\<close>: the
  integer \<open>nfft\<close> is converted to a float and multiplied with the float \<open>overlap\<close>; for
  \<open>nfft = 100\<close> and the float \<open>0.29\<close> the product is \<open>28.999999999999996\<close> and
  \<open>noverlap\<close> is 28.
\<close>

definition py_int :: "rat \<Rightarrow> int" where
  "py_int q = (if q \<ge> 0 then \<lfloor>q\<rfloor> else \<lceil>q\<rceil>)"

definition noverlap :: "nat \<Rightarrow> rat \<Rightarrow> int" where
  "noverlap nfft overlap = py_int (fmul (float_of_int (int nfft)) overlap)"

definition stride :: "nat \<Rightarrow> rat \<Rightarrow> int" where
  "stride nfft overlap = int nfft - noverlap nfft overlap"

text \<open>
  The loop \<open>while fifo.qsize() >= nfft\<close> of \<open>_spectra_estimatives\<close>: estimate the first
  \<open>nfft\<close> samples, release \<open>stride\<close> samples, yield. It returns the estimates yielded
  and either the queue left or the exception that ended it. With a stride that is not
  positive the loop never ends: the value is \<open>None\<close>.
\<close>

partial_function (option) drain ::
  "(real list \<Rightarrow> error + 'b) \<Rightarrow> nat \<Rightarrow> int \<Rightarrow> real list \<Rightarrow> ('b list \<times> (error + real list)) option" where
  "drain func nfft strd q =
     (if qsize q \<ge> nfft then
        (case func (slice_along_axis q 0 nfft) of
           Inl e \<Rightarrow> Some ([], Inl e)
         | Inr y \<Rightarrow>
             (case fifo_get strd q of
                Inl e \<Rightarrow> Some ([], Inl e)
              | Inr q' \<Rightarrow>
                  drain func nfft strd q' \<bind> (\<lambda>(ys, r). Some (y # ys, r))))
      else Some ([], Inr q))"

text \<open>
  The \<open>for\<close> loop over the chunks with its \<open>else\<close> clause: before a chunk is put, the
  queue is drained of complete windows; after the last chunk it is drained once more.
\<close>

fun spectra_loop ::
  "(real list \<Rightarrow> error + 'b) \<Rightarrow> nat \<Rightarrow> int \<Rightarrow> real list \<Rightarrow> real list list \<Rightarrow>
   ('b list \<times> status) option" where
  "spectra_loop func nfft strd q [] =
     (case drain func nfft strd q of
        None \<Rightarrow> None
      | Some (ys, Inl e) \<Rightarrow> Some (ys, Raised e)
      | Some (ys, Inr q') \<Rightarrow> Some (ys, Completed))"
| "spectra_loop func nfft strd q (arr # rest) =
     (case drain func nfft strd q of
        None \<Rightarrow> None
      | Some (ys, Inl e) \<Rightarrow> Some (ys, Raised e)
      | Some (ys, Inr q') \<Rightarrow>
          (case spectra_loop func nfft strd (fifo_put q' arr) rest of
             None \<Rightarrow> None
           | Some (ys', st) \<Rightarrow> Some (ys @ ys', st)))"

definition spectra_estimatives ::
  "producer \<Rightarrow> nat \<Rightarrow> rat \<Rightarrow> (real list \<Rightarrow> error + 'b) \<Rightarrow> ('b list \<times> status) option" where
  "spectra_estimatives pro nfft overlap func =
     spectra_loop func nfft (stride nfft overlap) [] (iterate pro)"

subsection \<open>The per-window estimators\<close>

text \<open>
  \<open>np.fft.rfft(arr, n)\<close> and \<open>np.fft.rfftfreq(n, d)\<close> are library routines: the
  one-sided discrete Fourier transform of the input cropped or zero-padded to \<open>n\<close>
  points, with \<open>n // 2 + 1\<close> bins, and the frequencies \<open>k / (d * n)\<close> of those bins.
  Both fail for \<open>n = 0\<close>; the callers below test that before they use them.
\<close>

definition rfft :: "nat \<Rightarrow> real list \<Rightarrow> complex list" where
  "rfft n xs =
     (let a = fit n xs
      in map (\<lambda>k. \<Sum>j\<leftarrow>[0..<n]. of_real (a ! j) * cis (- 2 * pi * real j * real k / real n))
           [0..<n div 2 + 1])"

definition rfftfreq :: "nat \<Rightarrow> real \<Rightarrow> real list" where
  "rfftfreq n d = map (\<lambda>k. real k / (d * real n)) [0..<n div 2 + 1]"

text \<open>
  \<open>scipy.signal.detrend(arr, type)\<close> and \<open>scipy.signal.get_window(window, n)\<close> are
  library routines selected by a name; they are parameters of the model.
\<close>

record numlib =
  sps_detrend :: "string \<Rightarrow> real list \<Rightarrow> real list"
  sps_get_window :: "string \<Rightarrow> nat \<Rightarrow> real list"

text \<open>
  \<open>modified_dft(arr, fs, nfft, window, axis, detrend, scaling)\<close>. The transform and the
  frequencies are computed before \<open>scaling\<close> is looked at. Where a window sums to zero
  numpy divides to \<open>inf\<close>; the value of the model is of no use there.
\<close>

definition modified_dft ::
  "numlib \<Rightarrow> real list \<Rightarrow> real \<Rightarrow> nat \<Rightarrow> string \<Rightarrow> string \<Rightarrow> string \<Rightarrow>
   error + (real list \<times> complex list)" where
  "modified_dft lib arr fs nfft window detrend_type scaling =
     (let nsamples = length arr;
          arr1 = (if nfft < nsamples then slice_along_axis arr 0 nfft else arr);
          arr2 = sps_detrend lib detrend_type arr1;
          coeffs = sps_get_window lib window (length arr2);
          arr3 = map2 (*) arr2 coeffs
      in if nfft = 0 then Inl ValueError
         else if fs = 0 then Inl ZeroDivisionError
         else
           let X = rfft nfft arr3;
               freqs = rfftfreq nfft (1 / fs)
           in if scaling = ''spectrum'' then
                Inr (freqs, map (\<lambda>c. c * of_real (sqrt (1 / (sum_list coeffs)\<^sup>2))) X)
              else if scaling = ''density'' then
                Inr (freqs,
                     map (\<lambda>c. c * of_real (sqrt (1 / (fs * sum_list (map (\<lambda>w. w\<^sup>2) coeffs))))) X)
              else Inl ValueError)"

text \<open>\<open>arr[a:b] *= c\<close> along the axis.\<close>

definition scale_slice :: "int option \<Rightarrow> int option \<Rightarrow> real \<Rightarrow> real list \<Rightarrow> real list" where
  "scale_slice a b c xs =
     (let s = py_start a (length xs); e = py_stop b (length xs)
      in if s < e then take s xs @ map ((*) c) (take (e - s) (drop s xs)) @ drop e xs
         else xs)"

text \<open>
  \<open>periodogram(arr, fs, nfft, window, axis, detrend, scaling)\<close>; \<open>nfft\<close> may be None,
  and \<open>not nfft\<close> also holds for 0.
\<close>

definition resolve_nfft :: "real list \<Rightarrow> nat option \<Rightarrow> nat" where
  "resolve_nfft arr nfft =
     (case nfft of None \<Rightarrow> length arr | Some n \<Rightarrow> if n = 0 then length arr else n)"

definition periodogram ::
  "numlib \<Rightarrow> real list \<Rightarrow> real \<Rightarrow> nat option \<Rightarrow> string \<Rightarrow> string \<Rightarrow> string \<Rightarrow>
   error + (real list \<times> real list)" where
  "periodogram lib arr fs nfft window detrend_type scaling =
     (let nfft1 = resolve_nfft arr nfft
      in case modified_dft lib arr fs nfft1 window detrend_type scaling of
           Inl e \<Rightarrow> Inl e
         | Inr (freqs, X) \<Rightarrow>
             let P = map (\<lambda>c. (Re c)\<^sup>2 + (Im c)\<^sup>2) X
             in if nfft1 mod 2 \<noteq> 0 then Inr (freqs, scale_slice (Some 1) None 2 P)
                else Inr (freqs, scale_slice (Some 1) (Some (- 1)) 2 P))"

subsection \<open>Welch and the short-time Fourier transform\<close>

text \<open>
  \<open>welch\<close> returns the frequencies and a producer over the generator, with the number
  of segments it announces as shape. The model returns the frequencies, that number,
  and the iteration of the generator to its end; every estimate has \<open>len(freqs)\<close> bins
  and the producer is built with that chunksize, so its chunks are the estimates.
  \<open>rfftfreq(nfft, 1/fs)\<close> divides by \<open>fs\<close> and by \<open>nfft\<close>, the floor division by
  the float \<open>nfft * (1 - overlap)\<close>. The announced number is
  \<open>int((N - nfft) // (nfft * (1 - overlap)) + 1)\<close>, in float arithmetic.
\<close>

definition nsegs :: "nat \<Rightarrow> nat \<Rightarrow> rat \<Rightarrow> int" where
  "nsegs n nfft overlap =
     py_int (fadd (float_floordiv (float_of_int (int n - int nfft))
                     (fmul (float_of_int (int nfft)) (fsub 1 overlap))) 1)"

definition welch ::
  "numlib \<Rightarrow> producer \<Rightarrow> real \<Rightarrow> nat \<Rightarrow> string \<Rightarrow> rat \<Rightarrow> string \<Rightarrow> string \<Rightarrow>
   error + (real list \<times> int \<times> (real list list \<times> status) option)" where
  "welch lib pro fs nfft window overlap detrend_type scaling =
     (if fs = 0 \<or> nfft = 0 then Inl ZeroDivisionError
      else if fmul (float_of_int (int nfft)) (fsub 1 overlap) = 0 then Inl ZeroDivisionError
      else
        Inr (rfftfreq nfft (1 / fs),
             nsegs (shape pro) nfft overlap,
             spectra_estimatives pro nfft overlap
               (\<lambda>x. map_sum id snd (periodogram lib x fs (Some nfft) window detrend_type scaling))))"

text \<open>
  Modelled from the spec: \<open>pad_producer(pro, [lead, trail], value)\<close> of
  core/producer.py (not among the sources): a new producer over the same sequence with
  constant samples put before and after it; a single amount pads both ends.
\<close>

definition pad_producer :: "producer \<Rightarrow> nat \<Rightarrow> nat \<Rightarrow> real \<Rightarrow> producer" where
  "pad_producer pro lead trail v =
     pro\<lparr>pdata := replicate lead v @ pdata pro @ replicate trail v\<rparr>"

text \<open>\<open>np.arange(a, b, step)\<close> on integers, \<open>step\<close> not 0.\<close>

definition arange :: "int \<Rightarrow> int \<Rightarrow> int \<Rightarrow> int list" where
  "arange a b step = map (\<lambda>k. a + int k * step) [0..<nat (- ((a - b) div step))]"

text \<open>
  The boundary and padding options of \<open>stft\<close>: the producer the generator reads.
  \<open>nsamples % stride\<close> fails for a stride of 0.
\<close>

definition stft_data :: "producer \<Rightarrow> nat \<Rightarrow> rat \<Rightarrow> bool \<Rightarrow> bool \<Rightarrow> error + producer" where
  "stft_data pro nfft overlap boundary padded =
     (let strd = stride nfft overlap;
          data = (if boundary then pad_producer pro (nfft div 2) (nfft div 2) 0 else pro)
      in if padded then
           (if strd = 0 then Inl ZeroDivisionError
            else
              let nsamples = shape pro;
                  amt = (if int nsamples mod strd \<noteq> 0 then strd else 0)
              in Inr (pad_producer data 0 (nat amt) 0))
         else Inr data)"

text \<open>
  \<open>stft\<close>: the frequencies, the segment times, the announced number of segments, and
  the iteration of the generator over the padded data.
\<close>

definition stft ::
  "numlib \<Rightarrow> producer \<Rightarrow> real \<Rightarrow> nat \<Rightarrow> string \<Rightarrow> rat \<Rightarrow> string \<Rightarrow> string \<Rightarrow> bool \<Rightarrow> bool \<Rightarrow>
   error + (real list \<times> real list \<times> int \<times> (complex list list \<times> status) option)" where
  "stft lib pro fs nfft window overlap detrend_type scaling boundary padded =
     (case stft_data pro nfft overlap boundary padded of
        Inl e \<Rightarrow> Inl e
      | Inr data \<Rightarrow>
          if fs = 0 \<or> nfft = 0 then Inl ZeroDivisionError
          else if fmul (float_of_int (int nfft)) (fsub 1 overlap) = 0 then Inl ZeroDivisionError
          else if stride nfft overlap = 0 then Inl ZeroDivisionError
          else
            let strd = stride nfft overlap;
                time = (if boundary then arange 0 (int (shape data) + 1) strd
                        else arange (int (nfft div 2))
                               (int (shape data) + 1 - int (nfft div 2)) strd)
            in Inr (rfftfreq nfft (1 / fs),
                    map (\<lambda>t. 1 / fs * of_int t) time,
                    nsegs (shape data) nfft overlap,
                    spectra_estimatives data nfft overlap
                      (\<lambda>x. map_sum id snd
                             (modified_dft lib x fs nfft window detrend_type scaling))))"

text \<open>
  The windows the engine hands to its estimator are what it yields for the estimator
  that returns its argument.
\<close>

definition segments :: "producer \<Rightarrow> nat \<Rightarrow> rat \<Rightarrow> (real list list \<times> status) option" where
  "segments pro nfft overlap = spectra_estimatives pro nfft overlap Inr"

subsection \<open>Closed forms used in the statements\<close>

text \<open>
  The windows of \<open>nfft\<close> samples that start \<open>s\<close> samples apart in a sequence, the
  samples left after them, and an estimator run over a list of windows up to its first
  exception. The engine is proved below to compute exactly these.
\<close>

fun windows_of :: "nat \<Rightarrow> nat \<Rightarrow> 'a list \<Rightarrow> 'a list list" where
  "windows_of nfft s q =
     (if s = 0 \<or> nfft = 0 \<or> length q < nfft then []
      else take nfft q # windows_of nfft s (drop s q))"

declare windows_of.simps [simp del]

fun rest_of :: "nat \<Rightarrow> nat \<Rightarrow> 'a list \<Rightarrow> 'a list" where
  "rest_of nfft s q =
     (if s = 0 \<or> nfft = 0 \<or> length q < nfft then q
      else rest_of nfft s (drop s q))"

declare rest_of.simps [simp del]

fun run_windows :: "('a list \<Rightarrow> error + 'b) \<Rightarrow> 'a list list \<Rightarrow> 'b list \<times> status" where
  "run_windows func [] = ([], Completed)"
| "run_windows func (w # ws) =
     (case func w of
        Inl e \<Rightarrow> ([], Raised e)
      | Inr y \<Rightarrow> (let (ys, st) = run_windows func ws in (y # ys, st)))"

text \<open>
  Library instance for the concrete evaluations: \<open>detrend\<close> removes the mean
  (type \<open>constant\<close>), the window is the boxcar (all ones).
\<close>

definition sample_lib :: numlib where
  "sample_lib =
     \<lparr>sps_detrend = (\<lambda>t xs. map (\<lambda>x. x - sum_list xs / real (length xs)) xs),
      sps_get_window = (\<lambda>w n. replicate n 1)\<rparr>"

text \<open>
  \<open>r\<close> is a multiple of \<open>M\<close> nearest to \<open>c\<close>.
\<close>

definition nearest_multiple :: "int \<Rightarrow> int \<Rightarrow> int \<Rightarrow> bool" where
  "nearest_multiple M c r \<longleftrightarrow> M dvd r \<and> (\<forall>m. M dvd m \<longrightarrow> \<bar>r - c\<bar> \<le> \<bar>m - c\<bar>)"

text \<open>
  The chunks of a producer of chunksize \<open>L\<close>: all of \<open>L\<close> samples but the last, which
  has between 1 and \<open>L\<close>. The samples \<open>_oa_mode\<close> trims from one end for a kernel of
  \<open>M\<close> taps.
\<close>

fun blocks_ok :: "nat \<Rightarrow> 'a list list \<Rightarrow> bool" where
  "blocks_ok L [] = True"
| "blocks_ok L [c] = (c \<noteq> [] \<and> length c \<le> L)"
| "blocks_ok L (c # c' # cs) = (length c = L \<and> blocks_ok L (c' # cs))"

definition mode_trim :: "nat \<Rightarrow> string \<Rightarrow> nat" where
  "mode_trim M mode = (if mode = ''full'' then 0 else if mode = ''same'' then (M - 1) div 2 else M - 1)"

section \<open>Properties\<close>

subsection \<open>Chunked second-order-section filtering\<close>

lemma concat_chop: "0 < n \<Longrightarrow> concat (chop n xs) = xs"
proof (induction n xs rule: chop.induct)
  case (1 n xs)
  then show ?case by (subst chop.simps) auto
qed

lemma cascade_length: "length zs = length sos \<Longrightarrow> length (snd (cascade sos x zs)) = length sos"
proof (induction sos x zs rule: cascade.induct)
  case (1 s ss x z zs)
  obtain y z' where st: "section_step s x z = (y, z')" by (cases "section_step s x z")
  from "1.prems" have "length zs = length ss" by simp
  with "1.IH" [OF refl st [symmetric]] have "length (snd (cascade ss y zs)) = length ss" .
  then show ?case using st by (simp add: case_prod_beta)
qed simp_all

lemma filt_samples_state_length:
  "length z = length sos \<Longrightarrow> length (snd (filt_samples sos xs z)) = length sos"
proof (induction xs arbitrary: z)
  case (Cons x xs)
  have "length (snd (cascade sos x z)) = length sos"
    using Cons.prems by (rule cascade_length)
  then show ?case using Cons.IH by (simp add: case_prod_beta)
qed simp

lemma filt_samples_append:
  "filt_samples sos (xs @ ys) z =
     (let (a, z1) = filt_samples sos xs z; (b, z2) = filt_samples sos ys z1 in (a @ b, z2))"
  by (induction xs arbitrary: z) (simp_all add: case_prod_beta)

lemma sosfilt_loop_concat:
  "valid_sos sos \<Longrightarrow> length z = length sos \<Longrightarrow>
   snd (sosfilt_loop sos z chunks) = Completed \<and>
   concat (fst (sosfilt_loop sos z chunks)) = fst (filt_samples sos (concat chunks) z)"
proof (induction chunks arbitrary: z)
  case Nil
  then show ?case by simp
next
  case (Cons c cs)
  obtain y z' where f: "filt_samples sos c z = (y, z')" by (cases "filt_samples sos c z")
  have len: "length z' = length sos"
    using filt_samples_state_length [OF Cons.prems(2), of c] f by simp
  have s: "sps_sosfilt sos c z = Inr (y, z')"
    using Cons.prems f by (simp add: sps_sosfilt_def)
  from Cons.IH [OF Cons.prems(1) len] show ?case
    using s f by (simp add: filt_samples_append case_prod_beta)
qed

text \<open>
  Claim C3. For a producer, a second-order-sections array that scipy accepts and the
  default initial state (\<open>zi = None\<close>, zeros), the concatenation of the chunks yielded
  by \<open>sosfilt\<close> is the output of one pass of the same cascade, from the zero state,
  over the whole signal. In particular, for any split of the signal in two chunks,
  filtering the first, carrying its final state \<open>z\<close> into the second and concatenating
  gives the output and the final state of the single pass.
\<close>

theorem sosfilt_chunk_invariance:
  assumes "0 < chunksize pro"
    and "pdata pro = a @ b"
    and "sps_sosfilt sos (pdata pro) (replicate (length sos) (0, 0)) = Inr (y, zf)"
  shows "(\<exists>ys. sosfilt pro sos None = (ys, Completed) \<and> concat ys = y) \<and>
         (\<exists>ya z yb. sps_sosfilt sos a (replicate (length sos) (0, 0)) = Inr (ya, z) \<and>
                     sps_sosfilt sos b z = Inr (yb, zf) \<and> ya @ yb = y)"
proof -
  let ?z0 = "replicate (length sos) (0::real, 0::real)"
  from assms(3) have v: "valid_sos sos" and y: "filt_samples sos (pdata pro) ?z0 = (y, zf)"
    by (auto simp: sps_sosfilt_def split: if_splits)
  have l0: "length ?z0 = length sos" by simp
  have c: "concat (iterate pro) = pdata pro"
    using assms(1) by (simp add: iterate_def concat_chop)
  from sosfilt_loop_concat [OF v l0, of "iterate pro"] y c
  have one: "\<exists>ys. sosfilt pro sos None = (ys, Completed) \<and> concat ys = y"
    by (cases "sosfilt_loop sos ?z0 (iterate pro)") (auto simp: sosfilt_def)
  obtain ya z where fa: "filt_samples sos a ?z0 = (ya, z)" by (cases "filt_samples sos a ?z0")
  obtain yb z2 where fb: "filt_samples sos b z = (yb, z2)" by (cases "filt_samples sos b z")
  have lz: "length z = length sos"
    using filt_samples_state_length [OF l0, of a] fa by simp
  from y assms(2) fa fb have "y = ya @ yb" and "zf = z2"
    by (simp_all add: filt_samples_append)
  then have two: "\<exists>ya z yb. sps_sosfilt sos a ?z0 = Inr (ya, z) \<and>
                     sps_sosfilt sos b z = Inr (yb, zf) \<and> ya @ yb = y"
    using v fa fb lz by (auto simp: sps_sosfilt_def)
  from one two show ?thesis by blast
qed

theorem sosfilt_chunk_invariance_witness:
  "(\<exists>ys. sosfilt \<lparr>pdata = [1, 2, 3], axis = 0, chunksize = 2\<rparr> [(1, 2, 3, 1, 4, 5)] None
          = (ys, Completed) \<and> concat ys = [1, 0, 5]) \<and>
   (\<exists>ya z yb. sps_sosfilt [(1, 2, 3, 1, 4, 5)] [1] [(0, 0)] = Inr (ya, z) \<and>
               sps_sosfilt [(1, 2, 3, 1, 4, 5)] [2, 3] z = Inr (yb, [(- 8, - 16)]) \<and>
               ya @ yb = [1, 0, 5])"
proof -
  have h: "sps_sosfilt [(1, 2, 3, 1, 4, 5)] (pdata \<lparr>pdata = [1, 2, 3], axis = 0, chunksize = 2\<rparr>)
             (replicate (length [(1::real, 2::real, 3::real, 1::real, 4::real, 5::real)]) (0, 0))
           = Inr ([1, 0, 5], [(- 8, - 16)])"
    by (simp add: sps_sosfilt_def valid_sos_def)
  show ?thesis
    using sosfilt_chunk_invariance [of "\<lparr>pdata = [1, 2, 3], axis = 0, chunksize = 2\<rparr>" "[1]" "[2, 3]", OF _ _ h]
    by simp
qed

subsection \<open>The producer's chunksize across \<open>oaconvolve\<close>\<close>

text \<open>
  Claim C9. When the iteration of \<open>oaconvolve\<close> runs to the exhaustion of the stream
  (the generator's body ends), the input producer is left exactly as it was before:
  its chunksize holds the value it had, and no other attribute has changed.
\<close>

theorem oaconvolve_restores_chunksize:
  "oaconvolve b pro win mode = (ys, Completed, pro') \<Longrightarrow> pro' = pro"
  by (auto simp: oaconvolve_def Let_def split: if_splits prod.splits)

theorem oaconvolve_restores_chunksize_witness:
  "fst (snd (oaconvolve None \<lparr>pdata = [1, 2, 3, 4, 5, 6, 7, 8, 9], axis = 0, chunksize = 4\<rparr>
                [2] ''full'')) = Completed \<and>
   snd (snd (oaconvolve None \<lparr>pdata = [1, 2, 3, 4, 5, 6, 7, 8, 9], axis = 0, chunksize = 4\<rparr>
                [2] ''full'')) = \<lparr>pdata = [1, 2, 3, 4, 5, 6, 7, 8, 9], axis = 0, chunksize = 4\<rparr>"
proof -
  let ?r = "oaconvolve None \<lparr>pdata = [1, 2, 3, 4, 5, 6, 7, 8, 9], axis = 0, chunksize = 4\<rparr>
              [2] ''full''"
  have c: "fst (snd ?r) = Completed" by code_simp
  then have "?r = (fst ?r, Completed, snd (snd ?r))" by (metis prod.collapse)
  from oaconvolve_restores_chunksize [OF this] c show ?thesis by simp
qed

text \<open>
  Claim C10. If the consumer calls \<open>next\<close> at least once and the iteration does not run
  to completion (the consumer stops while the generator is suspended, or an exception
  leaves the generator), the producer's chunksize is left at the block stride
  \<open>L = nfft - M + 1\<close>, a value fixed by the kernel length alone; the other attributes
  are unchanged. The original chunksize is written back on completion only.
\<close>

theorem oaconvolve_early_stop:
  assumes "oaconvolve (Some k) pro win mode = (ys, st, pro')"
    and "win \<noteq> []" and "0 < k" and "st \<noteq> Completed"
  shows "pro' = pro\<lparr>chunksize := optimal_nffts (length win) + 1 - length win\<rparr>"
  using assms
  by (auto simp: oaconvolve_def Let_def optimal_nffts_def split: if_splits prod.splits)

theorem oaconvolve_early_stop_witness:
  "fst (snd (oaconvolve (Some 1) \<lparr>pdata = [1, 2, 3, 4, 5, 6, 7, 8, 9], axis = 0, chunksize = 4\<rparr>
                [2] ''full'')) = Suspended \<and>
   snd (snd (oaconvolve (Some 1) \<lparr>pdata = [1, 2, 3, 4, 5, 6, 7, 8, 9], axis = 0, chunksize = 4\<rparr>
                [2] ''full'')) = \<lparr>pdata = [1, 2, 3, 4, 5, 6, 7, 8, 9], axis = 0, chunksize = 8\<rparr>"
proof -
  let ?r = "oaconvolve (Some 1) \<lparr>pdata = [1, 2, 3, 4, 5, 6, 7, 8, 9], axis = 0, chunksize = 4\<rparr>
              [2] ''full''"
  have c: "fst (snd ?r) = Suspended" by code_simp
  then have e: "?r = (fst ?r, Suspended, snd (snd ?r))" by (metis prod.collapse)
  have n: "optimal_nffts (length [2::real]) + 1 - length [2::real] = 8" by code_simp
  from oaconvolve_early_stop [OF e] c n show ?thesis by simp
qed

subsection \<open>The doubling of the periodogram\<close>

lemma length_scale_slice [simp]: "length (scale_slice a b c xs) = length xs"
  by (auto simp: scale_slice_def Let_def)

lemma nth_scale_slice:
  assumes "k < length xs"
  shows "scale_slice a b c xs ! k =
           (if py_start a (length xs) \<le> k \<and> k < py_stop b (length xs) then c * xs ! k
            else xs ! k)"
proof -
  let ?s = "py_start a (length xs)" and ?e = "py_stop b (length xs)"
  have e: "?e \<le> length xs" by (auto simp: py_stop_def py_index_def split: option.splits)
  show ?thesis
  proof (cases "?s < ?e")
    case True
    then show ?thesis using assms e
      by (auto simp: scale_slice_def Let_def nth_append)
  next
    case False
    then show ?thesis by (auto simp: scale_slice_def Let_def)
  qed
qed

lemma length_rfft [simp]: "length (rfft n xs) = n div 2 + 1"
  by (simp add: rfft_def Let_def)

lemma modified_dft_length:
  "modified_dft lib arr fs n w d sc = Inr (f, X) \<Longrightarrow>
     length X = n div 2 + 1 \<and> length f = n div 2 + 1"
  by (auto simp: modified_dft_def Let_def rfftfreq_def split: if_splits)

text \<open>
  Claim C7. Whenever \<open>periodogram\<close> returns, with \<open>n\<close> the number of DFT points it
  uses, its estimate has the \<open>n div 2 + 1\<close> bins of the one-sided modified DFT \<open>X\<close>, and
  bin \<open>k\<close> is the squared modulus of \<open>X ! k\<close>, doubled except for \<open>k = 0\<close> (DC) and, when
  \<open>n\<close> is even, for \<open>k = n div 2\<close> (Nyquist); for odd \<open>n\<close> every bin but DC is doubled.
\<close>

theorem periodogram_doubling:
  assumes "periodogram lib arr fs nfft window detrend_type scaling = Inr (freqs, P)"
    and "n = resolve_nfft arr nfft"
  shows "\<exists>X. modified_dft lib arr fs n window detrend_type scaling = Inr (freqs, X) \<and>
             length X = n div 2 + 1 \<and> length P = n div 2 + 1 \<and>
             (\<forall>k\<le>n div 2.
                P ! k = (if k = 0 \<or> (even n \<and> k = n div 2) then 1 else 2) *
                        ((Re (X ! k))\<^sup>2 + (Im (X ! k))\<^sup>2))"
proof -
  from assms obtain X where
    m: "modified_dft lib arr fs n window detrend_type scaling = Inr (freqs, X)"
    by (auto simp: periodogram_def Let_def split: sum.splits if_splits)
  let ?Q = "map (\<lambda>c. (Re c)\<^sup>2 + (Im c)\<^sup>2) X"
  have lx: "length X = n div 2 + 1" using modified_dft_length [OF m] by simp
  have P: "P = (if n mod 2 \<noteq> 0 then scale_slice (Some 1) None 2 ?Q
                else scale_slice (Some 1) (Some (- 1)) 2 ?Q)"
    using assms m by (auto simp: periodogram_def Let_def split: if_splits)
  have lp: "length P = n div 2 + 1" using P lx by simp
  have "P ! k = (if k = 0 \<or> (even n \<and> k = n div 2) then 1 else 2) *
                ((Re (X ! k))\<^sup>2 + (Im (X ! k))\<^sup>2)" if "k \<le> n div 2" for k
  proof -
    have k: "k < length ?Q" using that lx by simp
    show ?thesis
    proof (cases "even n")
      case True
      then have "P = scale_slice (Some 1) (Some (- 1)) 2 ?Q" using P by presburger
      then show ?thesis using k True lx nth_scale_slice [OF k, of "Some 1" "Some (- 1)" 2]
        by (auto simp: py_start_def py_stop_def py_index_def)
    next
      case False
      then have "P = scale_slice (Some 1) None 2 ?Q" using P by presburger
      then show ?thesis using k False lx nth_scale_slice [OF k, of "Some 1" None 2]
        by (auto simp: py_start_def py_stop_def py_index_def)
    qed
  qed
  with m lx lp show ?thesis by blast
qed

theorem periodogram_doubling_witness:
  "\<exists>f P X. periodogram sample_lib [1, 2, 3, 4] 1 (Some 4) ''boxcar'' ''constant'' ''density''
              = Inr (f, P) \<and>
            modified_dft sample_lib [1, 2, 3, 4] 1 4 ''boxcar'' ''constant'' ''density''
              = Inr (f, X) \<and>
            length P = 3 \<and>
            P ! 0 = (Re (X ! 0))\<^sup>2 + (Im (X ! 0))\<^sup>2 \<and>
            P ! 1 = 2 * ((Re (X ! 1))\<^sup>2 + (Im (X ! 1))\<^sup>2) \<and>
            P ! 2 = (Re (X ! 2))\<^sup>2 + (Im (X ! 2))\<^sup>2"
proof -
  obtain f P where
    p: "periodogram sample_lib [1, 2, 3, 4] 1 (Some 4) ''boxcar'' ''constant'' ''density''
          = Inr (f, P)"
    by (simp add: periodogram_def modified_dft_def resolve_nfft_def Let_def)
  have n: "(4::nat) = resolve_nfft [1, 2, 3, 4] (Some 4)" by (simp add: resolve_nfft_def)
  from periodogram_doubling [OF p n] obtain X where
    x: "modified_dft sample_lib [1, 2, 3, 4] 1 4 ''boxcar'' ''constant'' ''density'' = Inr (f, X)"
    and l: "length P = 4 div 2 + 1"
    and a: "\<forall>k\<le>4 div 2. P ! k = (if k = 0 \<or> (even (4::nat) \<and> k = 4 div 2) then 1 else 2) *
                        ((Re (X ! k))\<^sup>2 + (Im (X ! k))\<^sup>2)"
    by blast
  from a have "P ! 0 = (Re (X ! 0))\<^sup>2 + (Im (X ! 0))\<^sup>2"
    and "P ! 1 = 2 * ((Re (X ! 1))\<^sup>2 + (Im (X ! 1))\<^sup>2)"
    and "P ! 2 = (Re (X ! 2))\<^sup>2 + (Im (X ! 2))\<^sup>2"
    by simp_all
  with p x l show ?thesis by simp
qed

subsection \<open>The working chunk size of the polyphase resampler\<close>

text \<open>
  Claim C8, as the code has it. For a decimation factor \<open>0 < M < N\<close> the working chunk
  size is the least multiple of \<open>M\<close> that is not below \<open>min chunksize (N div 3)\<close>: it is
  divisible by \<open>M\<close> and exceeds that minimum by less than \<open>M\<close>. (The code rounds up;
  it does not take the multiple nearest to the requested chunksize.)
\<close>

theorem polyphase_csize_rounds_up:
  assumes "0 < M" and "M < N"
  shows "\<exists>c. polyphase_csize L M csize0 N = Inr c \<and> M dvd c \<and>
             min csize0 (N div 3) \<le> c \<and> c < min csize0 (N div 3) + M"
proof -
  define a where "a = (if csize0 > N div 3 then N div 3 else csize0)"
  have a: "a = min csize0 (N div 3)" by (simp add: a_def min_def)
  have m: "max L M \<noteq> 0" using assms(1) by simp
  show ?thesis
  proof (cases "a mod M > 0")
    case True
    define q where "q = (- a) div M"
    define r where "r = (- a) mod M"
    have e: "- a = q * M + r" by (simp add: q_def r_def)
    have r: "0 \<le> r" "r < M" using assms(1) by (simp_all add: r_def)
    have "polyphase_csize L M csize0 N = Inr (- q * M)"
      using assms m True by (simp add: polyphase_csize_def a_def q_def Let_def)
    moreover have "M dvd - q * M" by simp
    moreover have "a \<le> - q * M" "- q * M < a + M" using e r by (simp_all add: algebra_simps)
    ultimately show ?thesis using a by auto
  next
    case False
    moreover have "0 \<le> a mod M" using assms(1) by simp
    ultimately have z: "a mod M = 0" by linarith
    have "polyphase_csize L M csize0 N = Inr a"
      using assms m False by (simp add: polyphase_csize_def a_def Let_def)
    moreover have "M dvd a" using z by auto
    ultimately show ?thesis using a assms(1) by auto
  qed
qed

theorem polyphase_csize_rounds_up_witness:
  "\<exists>c. polyphase_csize 1 3 1000 10000 = Inr c \<and> (3::int) dvd c \<and> 1000 \<le> c \<and> c < 1003"
  using polyphase_csize_rounds_up [of 3 10000 1 1000] by simp

text \<open>
  Claim C8 as stated fails: for \<open>M = 3\<close>, a requested chunksize of 1000 and 10000
  samples the working size is 1002, while 999 is a multiple of 3 nearer to 1000.
\<close>

theorem polyphase_csize_not_nearest:
  "polyphase_csize 1 3 1000 10000 = Inr 1002 \<and> \<not> nearest_multiple 3 1000 1002"
proof -
  have "\<not> nearest_multiple 3 1000 1002"
  proof
    assume "nearest_multiple 3 1000 1002"
    then have "(3::int) dvd 999 \<longrightarrow> \<bar>1002 - 1000\<bar> \<le> \<bar>999 - (1000::int)\<bar>"
      unfolding nearest_multiple_def by blast
    then show False by simp
  qed
  moreover have "polyphase_csize 1 3 1000 10000 = Inr 1002"
    by (simp add: polyphase_csize_def)
  ultimately show ?thesis by simp
qed

subsection \<open>The segmentation engine in closed form\<close>

lemma slice_along_axis_0: "slice_along_axis q 0 n = take n q"
  by (simp add: slice_along_axis_def py_slice_def py_start_def py_stop_def py_index_def Let_def
      min_def)

lemma run_windows_not_suspended: "snd (run_windows func ws) \<noteq> Suspended"
  by (induction ws) (simp_all add: case_prod_beta split: sum.splits)

lemma run_windows_append:
  "run_windows func (a @ b) =
     (if snd (run_windows func a) = Completed
      then (fst (run_windows func a) @ fst (run_windows func b), snd (run_windows func b))
      else run_windows func a)"
  by (induction a) (simp_all add: case_prod_beta split: sum.splits)


lemma windows_of_append:
  assumes "0 < s" and "s \<le> nfft"
  shows "windows_of nfft s (q @ r) = windows_of nfft s q @ windows_of nfft s (rest_of nfft s q @ r)"
  using assms
proof (induction nfft s q rule: windows_of.induct)
  case (1 nfft s q)
  show ?case
  proof (cases "length q < nfft")
    case True
    then show ?thesis by (simp add: windows_of.simps [of nfft s q] rest_of.simps [of nfft s q])
  next
    case False
    with 1 have ih: "windows_of nfft s (drop s q @ r) =
        windows_of nfft s (drop s q) @ windows_of nfft s (rest_of nfft s (drop s q) @ r)"
      by simp
    from False 1 have d: "drop s (q @ r) = drop s q @ r" by simp
    from False 1 show ?thesis
      by (simp add: windows_of.simps [of nfft s q] windows_of.simps [of nfft s "q @ r"]
          rest_of.simps [of nfft s q] d ih)
  qed
qed

lemma drain_closed:
  assumes "0 < s" and "s \<le> nfft"
  shows "drain func nfft (int s) q =
           Some (fst (run_windows func (windows_of nfft s q)),
                 (case snd (run_windows func (windows_of nfft s q)) of
                    Raised e \<Rightarrow> Inl e | _ \<Rightarrow> Inr (rest_of nfft s q)))"
  using assms
proof (induction nfft s q rule: windows_of.induct)
  case (1 nfft s q)
  show ?case
  proof (cases "length q < nfft")
    case True
    then show ?thesis
      by (subst drain.simps)
         (simp add: qsize_def windows_of.simps [of nfft s q] rest_of.simps [of nfft s q])
  next
    case False
    with 1 have ih: "drain func nfft (int s) (drop s q) =
           Some (fst (run_windows func (windows_of nfft s (drop s q))),
                 (case snd (run_windows func (windows_of nfft s (drop s q))) of
                    Raised e \<Rightarrow> Inl e | _ \<Rightarrow> Inr (rest_of nfft s (drop s q))))"
      by simp
    from False 1 have g: "fifo_get (int s) q = Inr (drop s q)"
      by (simp add: fifo_get_def qsize_def)
    from False 1 show ?thesis
      by (subst drain.simps)
         (simp add: qsize_def windows_of.simps [of nfft s q] rest_of.simps [of nfft s q]
            slice_along_axis_0 g ih case_prod_beta split: sum.splits cong: status.case_cong)
  qed
qed

lemma spectra_loop_closed:
  assumes "0 < s" and "s \<le> nfft"
  shows "spectra_loop func nfft (int s) q chunks =
           Some (run_windows func (windows_of nfft s (q @ concat chunks)))"
proof (induction chunks arbitrary: q)
  case Nil
  show ?case using run_windows_not_suspended [of func "windows_of nfft s q"]
    by (cases "run_windows func (windows_of nfft s q)")
       (auto simp: drain_closed [OF assms] split: status.splits)
next
  case (Cons arr rest)
  have w: "windows_of nfft s (q @ arr @ concat rest) =
             windows_of nfft s q @ windows_of nfft s ((rest_of nfft s q @ arr) @ concat rest)"
    using windows_of_append [OF assms, of q "arr @ concat rest"] by simp
  show ?case using run_windows_not_suspended [of func "windows_of nfft s q"]
    by (cases "run_windows func (windows_of nfft s q)")
       (auto simp: drain_closed [OF assms] Cons.IH w run_windows_append fifo_put_def
             case_prod_beta split: status.splits)
qed

text \<open>Rounding to the nearest double.\<close>

lemma round_even_upper: "of_int (round_even m) \<le> m + 1 / 2"
proof -
  have "of_int \<lfloor>m\<rfloor> \<le> m" by simp
  then show ?thesis by (auto simp: round_even_def Let_def; linarith)
qed

lemma round_even_lower: "m - 1 / 2 \<le> of_int (round_even m)"
proof -
  have "m < of_int \<lfloor>m\<rfloor> + 1" by linarith
  then show ?thesis by (auto simp: round_even_def Let_def; linarith)
qed

lemma round_even_of_int [simp]: "round_even (of_int z) = z"
  by (simp add: round_even_def)

lemma binade_bounds:
  assumes "0 < q"
  shows "2 powi binade q \<le> q" and "q < 2 powi (binade q + 1)"
proof -
  obtain a b where ab: "quotient_of q = (a, b)" by (cases "quotient_of q")
  then have b: "0 < b" and q: "q = of_int a / of_int b"
    by (simp_all add: quotient_of_denom_pos quotient_of_div)
  from assms q b have a: "0 < a" by (simp add: zero_less_divide_iff)
  let ?k = "bitlen a - bitlen b"
  have ba: "1 \<le> bitlen a" and bb: "1 \<le> bitlen b"
    using a b bitlen_eq_zero_iff [of a] bitlen_eq_zero_iff [of b] bitlen_nonneg [of a]
      bitlen_nonneg [of b] by linarith+
  have a1: "(2::rat) powi (bitlen a - 1) \<le> of_int a"
  proof -
    have "2 ^ nat (bitlen a - 1) \<le> a" using bitlen_bounds [OF a] by simp
    then have "(of_int (2 ^ nat (bitlen a - 1)) :: rat) \<le> of_int a" by (simp only: of_int_le_iff)
    then show ?thesis using ba by (simp add: power_int_nonneg_exp)
  qed
  have a2: "of_int a < (2::rat) powi bitlen a"
  proof -
    have "a < 2 ^ nat (bitlen a)" using bitlen_bounds [OF a] by simp
    then have "(of_int a :: rat) < of_int (2 ^ nat (bitlen a))" by (simp only: of_int_less_iff)
    then show ?thesis using ba by (simp add: power_int_nonneg_exp)
  qed
  have b1: "(2::rat) powi (bitlen b - 1) \<le> of_int b"
  proof -
    have "2 ^ nat (bitlen b - 1) \<le> b" using bitlen_bounds [OF b] by simp
    then have "(of_int (2 ^ nat (bitlen b - 1)) :: rat) \<le> of_int b" by (simp only: of_int_le_iff)
    then show ?thesis using bb by (simp add: power_int_nonneg_exp)
  qed
  have b2: "of_int b < (2::rat) powi bitlen b"
  proof -
    have "b < 2 ^ nat (bitlen b)" using bitlen_bounds [OF b] by simp
    then have "(of_int b :: rat) < of_int (2 ^ nat (bitlen b))" by (simp only: of_int_less_iff)
    then show ?thesis using bb by (simp add: power_int_nonneg_exp)
  qed
  have up: "q < 2 powi (?k + 1)"
  proof -
    have "of_int a / of_int b < (2::rat) powi bitlen a / 2 powi (bitlen b - 1)"
      using a a2 b1 by (intro frac_less) simp_all
    also have "\<dots> = 2 powi (bitlen a - (bitlen b - 1))" by (simp add: power_int_diff)
    finally show ?thesis using q by (simp add: algebra_simps)
  qed
  have lo: "2 powi (?k - 1) < q"
  proof -
    have "(2::rat) powi (bitlen a - 1) / 2 powi bitlen b < of_int a / of_int b"
      using b a1 b2 by (intro frac_less2) simp_all
    moreover have "(2::rat) powi (bitlen a - 1) / 2 powi bitlen b = 2 powi (bitlen a - 1 - bitlen b)"
      by (simp add: power_int_diff)
    ultimately show ?thesis using q by (simp add: algebra_simps)
  qed
  have bin: "binade q = (if 2 powi ?k \<le> q then ?k else ?k - 1)"
    by (simp add: binade_def ab Let_def)
  show "2 powi binade q \<le> q" using lo bin by auto
  show "q < 2 powi (binade q + 1)" using up bin by auto
qed

lemma round_double_pos:
  assumes "0 < q"
  shows "0 < round_double q"
proof -
  let ?e = "binade q - 52"
  let ?m = "q / 2 powi ?e"
  have p: "(0::rat) < 2 powi ?e" by simp
  have "2 powi binade q \<le> q" using binade_bounds(1) [OF assms] .
  moreover have "(2::rat) powi (52 + ?e) = 2 powi 52 * 2 powi ?e"
    by (rule power_int_add) simp
  then have "(2::rat) powi binade q = 2 powi 52 * 2 powi ?e" by simp
  ultimately have "(2::rat) powi 52 \<le> ?m" using p by (simp add: pos_le_divide_eq)
  then have "1 \<le> ?m - 1 / 2" by simp
  with round_even_lower [of ?m] have "(0::rat) < of_int (round_even ?m)" by linarith
  then show ?thesis using assms p by (simp add: round_double_def)
qed

lemma round_double_nonneg: "0 \<le> q \<Longrightarrow> 0 \<le> round_double q"
  using round_double_pos [of q] by (cases "q = 0") (simp_all add: round_double_def less_eq_rat_def)

lemma round_double_below:
  assumes "0 < n" and "0 \<le> p" and "p \<le> n * (1 - 1 / 2 ^ 53)"
  shows "round_double p < n"
proof (cases "p = 0")
  case True
  with assms show ?thesis by (simp add: round_double_def)
next
  case False
  with assms have pp: "0 < p" by simp
  let ?e = "binade p - 52"
  let ?P = "(2::rat) powi ?e"
  let ?m = "p / ?P"
  have P: "0 < ?P" by simp
  have "2 powi binade p \<le> p" using binade_bounds(1) [OF pp] .
  moreover have "(2::rat) powi (52 + ?e) = 2 powi 52 * ?P"
    by (rule power_int_add) simp
  then have "(2::rat) powi binade p = 2 ^ 52 * ?P" by simp
  ultimately have h: "?P / 2 \<le> p / 2 ^ 53" by simp
  have "round_double p = of_int (round_even ?m) * ?P"
    using pp by (simp add: round_double_def)
  also have "\<dots> \<le> (?m + 1 / 2) * ?P"
    using round_even_upper [of ?m] P by (intro mult_right_mono) simp_all
  also have "\<dots> = p + ?P / 2" using P by (simp add: field_simps)
  also have "\<dots> \<le> p * (1 + 1 / 2 ^ 53)" using h by (simp add: algebra_simps)
  also have "\<dots> \<le> (n * (1 - 1 / 2 ^ 53)) * (1 + 1 / 2 ^ 53)"
    using assms(3) by (intro mult_right_mono) simp_all
  also have "\<dots> = n * (1 - 1 / 2 ^ 106)" by (simp add: algebra_simps)
  also have "\<dots> < n" using assms(1) by simp
  finally show ?thesis .
qed

lemma double_below_one:
  assumes "round_double q = q" and "0 \<le> q" and "q < 1"
  shows "q \<le> 1 - 1 / 2 ^ 53"
proof (cases "q = 0")
  case True
  then show ?thesis by simp
next
  case False
  with assms have qp: "0 < q" by simp
  have "(2::rat) powi binade q \<le> q" using binade_bounds(1) [OF qp] .
  with assms(3) have lt: "(2::rat) powi binade q < 2 powi 0" by simp
  have neg: "binade q < 0"
  proof (rule ccontr)
    assume "\<not> binade q < 0"
    then have "(2::rat) powi 0 \<le> 2 powi binade q" by (intro power_int_increasing) simp_all
    with lt show False by simp
  qed
  show ?thesis
  proof (cases "binade q = - 1")
    case True
    let ?r = "round_even (q / 2 powi (- 53))"
    have e: "q = of_int ?r * 2 powi (- 53)"
      using assms(1) qp True by (simp add: round_double_def)
    with assms(3) have "(of_int ?r :: rat) < 2 ^ 53" by (simp add: power_int_minus field_simps)
    then have "(of_int ?r :: rat) < of_int (2 ^ 53)" by simp
    then have "?r < 2 ^ 53" by (simp only: of_int_less_iff)
    then have "?r \<le> 2 ^ 53 - 1" by simp
    then have "(of_int ?r :: rat) \<le> of_int (2 ^ 53 - 1)" by (simp only: of_int_le_iff)
    then have "(of_int ?r :: rat) * 2 powi (- 53) \<le> (2 ^ 53 - 1) * 2 powi (- 53)"
      by (intro mult_right_mono) simp_all
    with e show ?thesis by (simp add: power_int_minus field_simps)
  next
    case False
    with neg have "binade q + 1 \<le> - 1" by simp
    then have "(2::rat) powi (binade q + 1) \<le> 2 powi (- 1)"
      by (intro power_int_increasing) simp_all
    with binade_bounds(2) [OF qp] have "q < 1 / 2" by (simp add: power_int_minus)
    then show ?thesis by simp
  qed
qed

lemma round_double_of_nat:
  assumes "n < 2 ^ 53"
  shows "round_double (of_nat n) = of_nat n"
proof (cases "n = 0")
  case True
  then show ?thesis by (simp add: round_double_def)
next
  case False
  then have np: "(0::rat) < of_nat n" by simp
  let ?q = "of_nat n :: rat"
  let ?e = "binade ?q - 52"
  have "(2::rat) powi binade ?q \<le> ?q" using binade_bounds(1) [OF np] .
  moreover have "?q < 2 ^ 53" using assms by (metis of_nat_less_iff of_nat_numeral of_nat_power)
  ultimately have lt: "(2::rat) powi binade ?q < 2 powi 53" by simp
  have "binade ?q < 53"
  proof (rule ccontr)
    assume "\<not> binade ?q < 53"
    then have "(2::rat) powi 53 \<le> 2 powi binade ?q" by (intro power_int_increasing) simp_all
    with lt show False by simp
  qed
  then have e: "0 \<le> - ?e" by simp
  have d: "?q / 2 powi ?e = ?q * 2 powi (- ?e)"
    by (simp only: power_int_minus divide_inverse)
  have i: "?q * 2 powi (- ?e) = of_int (int n * 2 ^ nat (- ?e))"
    using e by (simp add: power_int_nonneg_exp)
  have r: "round_even (?q / 2 powi ?e) = int n * 2 ^ nat (- ?e)"
    by (simp only: d i round_even_of_int)
  have one: "(2::rat) powi (- ?e) * 2 powi ?e = 1"
  proof -
    have "(2::rat) powi (- ?e + ?e) = 2 powi (- ?e) * 2 powi ?e" by (rule power_int_add) simp
    then show ?thesis by simp
  qed
  have "round_double ?q = of_int (round_even (?q / 2 powi ?e)) * 2 powi ?e"
    using np by (simp add: round_double_def)
  also have "\<dots> = (?q * 2 powi (- ?e)) * 2 powi ?e" by (simp only: r i)
  also have "\<dots> = ?q * (2 powi (- ?e) * 2 powi ?e)" by (simp only: mult.assoc)
  also have "\<dots> = ?q" by (simp only: one mult_1_right)
  finally show ?thesis .
qed

lemma float_of_nat_exact: "n < 2 ^ 53 \<Longrightarrow> float_of_int (int n) = of_nat n"
  using round_double_of_nat [of n] by (simp add: float_of_int_def)

lemma stride_bounds:
  assumes "0 < nfft" and "nfft < 2 ^ 53"
    and "0 \<le> overlap" and "overlap < 1" and "round_double overlap = overlap"
  shows "0 < stride nfft overlap" and "stride nfft overlap \<le> int nfft"
    and "stride nfft overlap = int nfft - \<lfloor>fmul (of_nat nfft) overlap\<rfloor>"
proof -
  let ?p = "(of_nat nfft :: rat) * overlap"
  have nn: "0 \<le> ?p" using assms(3) by simp
  have r0: "0 \<le> round_double ?p" using nn by (rule round_double_nonneg)
  have n: "noverlap nfft overlap = \<lfloor>fmul (of_nat nfft) overlap\<rfloor>"
    using r0 by (simp add: noverlap_def py_int_def fmul_def float_of_nat_exact [OF assms(2)])
  have "overlap \<le> 1 - 1 / 2 ^ 53" using double_below_one [OF assms(5,3,4)] .
  then have "?p \<le> of_nat nfft * (1 - 1 / 2 ^ 53)" by (intro mult_left_mono) simp_all
  moreover have "(0::rat) < of_nat nfft" using assms(1) by simp
  ultimately have "round_double ?p < of_nat nfft" using nn by (intro round_double_below)
  then have "\<lfloor>round_double ?p\<rfloor> < int nfft" by (simp add: floor_less_iff)
  moreover have "0 \<le> \<lfloor>round_double ?p\<rfloor>" using r0 by simp
  ultimately show "0 < stride nfft overlap" and "stride nfft overlap \<le> int nfft"
    and "stride nfft overlap = int nfft - \<lfloor>fmul (of_nat nfft) overlap\<rfloor>"
    using n by (simp_all add: stride_def fmul_def)
qed

lemma spectra_estimatives_closed:
  assumes "0 < stride nfft overlap" and "stride nfft overlap \<le> int nfft"
    and "0 < chunksize pro"
  shows "spectra_estimatives pro nfft overlap func =
           Some (run_windows func (windows_of nfft (nat (stride nfft overlap)) (pdata pro)))"
proof -
  let ?s = "nat (stride nfft overlap)"
  have s: "0 < ?s" "?s \<le> nfft" "int ?s = stride nfft overlap"
    using assms(1,2) by linarith+
  have c: "concat (iterate pro) = pdata pro"
    using assms(3) by (simp add: iterate_def concat_chop)
  show ?thesis
    using spectra_loop_closed [OF s(1,2), of func "[]" "iterate pro"] s(3) c
    by (simp add: spectra_estimatives_def)
qed




subsection \<open>Welch: the number of windows\<close>


lemma rate_nonzero:
  assumes "0 < nfft" and "overlap < 1"
  shows "fmul (float_of_int (int nfft)) (fsub 1 overlap) \<noteq> 0"
proof -
  have "0 < float_of_int (int nfft)"
    using assms(1) by (auto simp: float_of_int_def intro: round_double_pos)
  moreover have "0 < fsub 1 overlap"
    using assms(2) by (auto simp: fsub_def intro: round_double_pos)
  ultimately have "0 < fmul (float_of_int (int nfft)) (fsub 1 overlap)"
    by (auto simp: fmul_def intro: round_double_pos)
  then show ?thesis by simp
qed





subsection \<open>STFT: the padding of the tail\<close>

lemma stft_closed:
  assumes "fs \<noteq> 0" and "0 < nfft" and "overlap < 1"
    and "0 < stride nfft overlap" and "stride nfft overlap \<le> int nfft"
    and "0 < chunksize pro"
  shows "\<exists>data. stft_data pro nfft overlap boundary padded = Inr data \<and>
           stft lib pro fs nfft window overlap detrend_type scaling boundary padded =
             Inr (rfftfreq nfft (1 / fs),
                  map (\<lambda>t. 1 / fs * of_int t)
                    (if boundary then arange 0 (int (shape data) + 1) (stride nfft overlap)
                     else arange (int (nfft div 2)) (int (shape data) + 1 - int (nfft div 2))
                            (stride nfft overlap)),
                  nsegs (shape data) nfft overlap,
                  Some (run_windows
                          (\<lambda>x. map_sum id snd (modified_dft lib x fs nfft window detrend_type scaling))
                          (windows_of nfft (nat (stride nfft overlap)) (pdata data))))"
proof -
  have sb: "stride nfft overlap \<noteq> 0" using assms(4) by simp
  have "\<exists>data. stft_data pro nfft overlap boundary padded = Inr data \<and> 0 < chunksize data"
    using sb assms(6) by (simp add: stft_data_def Let_def pad_producer_def)
  then obtain data where d: "stft_data pro nfft overlap boundary padded = Inr data"
    and c: "0 < chunksize data" by blast
  show ?thesis
    using d assms(1,2) rate_nonzero [OF assms(2,3)] sb
      spectra_estimatives_closed [OF assms(4,5) c, where func =
        "\<lambda>x. map_sum id snd (modified_dft lib x fs nfft window detrend_type scaling)"]
    by (simp add: stft_def Let_def)
qed

text \<open>
  Claim C4 fails on the code. With 9 samples, \<open>nfft = 4\<close> and overlap \<open>1/4\<close> the stride
  is 3; 9 is divisible by 3, so \<open>padded=True\<close> adds nothing, and the generator cuts the
  windows of samples 1 to 4 and 4 to 7 only: samples 8 and 9 fall in no segment, and
  the estimator is run on those two windows and nothing else.
\<close>

theorem stft_padded_drops_tail:
  "stft_data \<lparr>pdata = [1, 2, 3, 4, 5, 6, 7, 8, 9], axis = 0, chunksize = 9\<rparr> 4 (1 / 4) False True
     = Inr \<lparr>pdata = [1, 2, 3, 4, 5, 6, 7, 8, 9], axis = 0, chunksize = 9\<rparr> \<and>
   segments \<lparr>pdata = [1, 2, 3, 4, 5, 6, 7, 8, 9], axis = 0, chunksize = 9\<rparr> 4 (1 / 4)
     = Some ([[1, 2, 3, 4], [4, 5, 6, 7]], Completed) \<and>
   (\<exists>f t n. stft lib \<lparr>pdata = [1, 2, 3, 4, 5, 6, 7, 8, 9], axis = 0, chunksize = 9\<rparr> 1 4
               window (1 / 4) detrend_type scaling False True
             = Inr (f, t, n,
                 Some (run_windows
                   (\<lambda>x. map_sum id snd (modified_dft lib x 1 4 window detrend_type scaling))
                   [[1, 2, 3, 4], [4, 5, 6, 7]])))"
proof -
  let ?P = "\<lparr>pdata = [1, 2, 3, 4, 5, 6, 7, 8, 9], axis = 0, chunksize = 9\<rparr>"
  have s: "stride 4 (1 / 4) = 3" by code_simp
  have d: "stft_data ?P 4 (1 / 4) False True = Inr ?P"
    by (simp add: stft_data_def s shape_def pad_producer_def)
  have w: "windows_of 4 3 [1, 2, 3, 4, 5, 6, 7, 8, 9 :: real] = [[1, 2, 3, 4], [4, 5, 6, 7]]"
    by (simp add: windows_of.simps)
  have g: "segments ?P 4 (1 / 4) = Some ([[1, 2, 3, 4], [4, 5, 6, 7]], Completed)"
    using spectra_estimatives_closed [of 4 "1 / 4" ?P Inr] by (simp add: segments_def s w)
  from stft_closed [where fs = 1 and nfft = 4 and overlap = "1 / 4" and pro = ?P and lib = lib
      and window = window and detrend_type = detrend_type and scaling = scaling
      and boundary = False and padded = True]
  have "\<exists>f t n. stft lib ?P 1 4 window (1 / 4) detrend_type scaling False True
             = Inr (f, t, n,
                 Some (run_windows
                   (\<lambda>x. map_sum id snd (modified_dft lib x 1 4 window detrend_type scaling))
                   [[1, 2, 3, 4], [4, 5, 6, 7]]))"
    by (simp add: d s w)
  with d g show ?thesis by simp
qed

theorem stft_padded_drops_tail_witness:
  "\<exists>f t n. stft sample_lib \<lparr>pdata = [1, 2, 3, 4, 5, 6, 7, 8, 9], axis = 0, chunksize = 9\<rparr> 1 4
              ''boxcar'' (1 / 4) ''constant'' ''density'' False True
            = Inr (f, t, n,
                Some (run_windows
                  (\<lambda>x. map_sum id snd
                         (modified_dft sample_lib x 1 4 ''boxcar'' ''constant'' ''density''))
                  [[1, 2, 3, 4], [4, 5, 6, 7]]))"
  using stft_padded_drops_tail [of sample_lib "''boxcar''" "''constant''" "''density''"]
  by blast

subsection \<open>Overlap-add: a signal that fits in one block\<close>

lemma chop_Cons: "0 < n \<Longrightarrow> xs \<noteq> [] \<Longrightarrow> chop n xs = take n xs # chop n (drop n xs)"
  by (subst chop.simps) simp

lemma chop_Nil [simp]: "chop n [] = []"
  by (subst chop.simps) simp

lemma clog2_ge: "m \<le> 2 ^ clog2 m"
proof (induction m rule: clog2.induct)
  case (1 m)
  show ?case
  proof (cases "m \<le> 1")
    case True
    then show ?thesis by (subst clog2.simps) simp
  next
    case False
    with 1 have "(m + 1) div 2 \<le> 2 ^ clog2 ((m + 1) div 2)" by simp
    moreover have "m \<le> 2 * ((m + 1) div 2)" by linarith
    ultimately have "m \<le> 2 * 2 ^ clog2 ((m + 1) div 2)" by linarith
    with False show ?thesis by (subst clog2.simps) simp
  qed
qed

lemma optimal_nffts_ge: "0 < m \<Longrightarrow> 8 * m \<le> optimal_nffts m"
  using clog2_ge [of m] by (simp add: optimal_nffts_def)

lemma block_stride_pos:
  assumes "win \<noteq> []"
  shows "0 < optimal_nffts (length win) + 1 - length win" and "optimal_nffts (length win) \<noteq> 0"
proof -
  from assms have "0 < length win" by simp
  with optimal_nffts_ge [of "length win"]
  show "0 < optimal_nffts (length win) + 1 - length win" and "optimal_nffts (length win) \<noteq> 0"
    by linarith+
qed

text \<open>
  Claim C1 fails on the code. Whenever the whole signal fits in one block (at most
  \<open>L = nfft - M + 1\<close> samples, and at least one), the first pass of the loop takes the
  branch of the last segment, which does not bind \<open>new_overlap\<close>; the assignment
  \<open>overlap = new_overlap\<close> then raises UnboundLocalError before anything is yielded, for
  every mode. No chunk comes out, whereas the convolution of the signal is not empty.
\<close>

theorem oaconvolve_single_block_raises:
  assumes "win \<noteq> []" and "pdata pro \<noteq> []"
    and "shape pro \<le> optimal_nffts (length win) + 1 - length win"
  shows "oaconvolve None pro win mode =
           ([], Raised UnboundLocalError,
            pro\<lparr>chunksize := optimal_nffts (length win) + 1 - length win\<rparr>)"
proof -
  let ?L = "optimal_nffts (length win) + 1 - length win"
  have L: "0 < ?L" and n: "optimal_nffts (length win) \<noteq> 0"
    using block_stride_pos [OF assms(1)] by simp_all
  have it: "iterate (pro\<lparr>chunksize := ?L\<rparr>) = [pdata pro]"
    using assms(2,3) L by (simp add: iterate_def chop_Cons shape_def)
  have ns: "(shape pro + ?L - 1) div ?L = 1"
  proof -
    have "0 < shape pro" using assms(2) by (simp add: shape_def)
    then have "?L \<le> shape pro + ?L - 1" "shape pro + ?L - 1 < 2 * ?L"
      using assms(3) by linarith+
    then show ?thesis by (intro div_nat_eqI) simp_all
  qed
  have b: "oa_body win mode (optimal_nffts (length win)) ?L 1 0
             (replicate (length win - 1) 0) None (pdata pro) = Inl UnboundLocalError"
    by (simp add: oa_body_def Let_def)
  show ?thesis using n it ns b by (simp add: oaconvolve_def Let_def)
qed

theorem oaconvolve_single_block_raises_witness:
  "oaconvolve None \<lparr>pdata = [1, 2, 3], axis = 0, chunksize = 2\<rparr> [1, 1] ''full'' =
     ([], Raised UnboundLocalError, \<lparr>pdata = [1, 2, 3], axis = 0, chunksize = 15\<rparr>) \<and>
   convolve_slicer (convolve_full [1, 2, 3] [1, 1]) 3 2 ''full'' = [1, 3, 5, 3]"
proof -
  have n: "optimal_nffts (length [1, 1 :: real]) + 1 - length [1, 1 :: real] = 15"
    by code_simp
  have c: "convolve_slicer (convolve_full [1, 2, 3] [1, 1]) 3 2 ''full'' = [1, 3, 5, 3]"
    by code_simp
  from oaconvolve_single_block_raises [of "[1, 1]" "\<lparr>pdata = [1, 2, 3], axis = 0, chunksize = 2\<rparr>"
      "''full''"] n c
  show ?thesis by (simp add: shape_def)
qed

subsection \<open>When a configuration error is raised\<close>

lemma modified_dft_invalid:
  assumes "scaling \<noteq> ''spectrum''" and "scaling \<noteq> ''density''" and "fs \<noteq> 0" and "0 < nfft"
  shows "modified_dft lib x fs nfft window detrend_type scaling = Inl ValueError"
    and "periodogram lib x fs (Some nfft) window detrend_type scaling = Inl ValueError"
  using assms by (simp_all add: periodogram_def modified_dft_def resolve_nfft_def Let_def)

lemma run_windows_failing:
  "(\<And>w. func w = Inl e) \<Longrightarrow>
     run_windows func ws = ([], if ws = [] then Completed else Raised e)"
  by (cases ws) simp_all

lemma windows_of_empty:
  assumes "0 < s" and "0 < nfft"
  shows "windows_of nfft s q = [] \<longleftrightarrow> length q < nfft"
  using assms by (simp add: windows_of.simps [of nfft s q])

lemma welch_invalid_scaling:
  assumes "scaling \<noteq> ''spectrum''" and "scaling \<noteq> ''density''" and "fs \<noteq> 0" and "0 < nfft"
    and "overlap < 1" and "0 < stride nfft overlap" and "stride nfft overlap \<le> int nfft"
    and "0 < chunksize pro"
  shows "welch lib pro fs nfft window overlap detrend_type scaling =
           Inr (rfftfreq nfft (1 / fs), nsegs (shape pro) nfft overlap,
                Some ([], if nfft \<le> shape pro then Raised ValueError else Completed))"
proof -
  let ?func = "\<lambda>x. map_sum id snd (periodogram lib x fs (Some nfft) window detrend_type scaling)"
  let ?s = "nat (stride nfft overlap)"
  have f: "?func w = Inl ValueError" for w
    by (simp add: modified_dft_invalid(2) [OF assms(1-4)])
  have s: "0 < ?s" using assms(6) by simp
  have "run_windows ?func (windows_of nfft ?s (pdata pro)) =
          ([], if nfft \<le> shape pro then Raised ValueError else Completed)"
    using run_windows_failing [of ?func ValueError, OF f]
      windows_of_empty [OF s assms(4), of "pdata pro"]
    by (auto simp: shape_def)
  then show ?thesis
    using assms(3,4) rate_nonzero [OF assms(4,5)]
      spectra_estimatives_closed [OF assms(6-8), where func = ?func]
    by (simp add: welch_def)
qed

lemma shape_stft_data:
  assumes "stft_data pro nfft overlap boundary padded = Inr data"
  shows "shape data = shape pro + (if boundary then 2 * (nfft div 2) else 0) +
           (if padded \<and> int (shape pro) mod stride nfft overlap \<noteq> 0
            then nat (stride nfft overlap) else 0)"
  using assms
  by (auto simp: stft_data_def Let_def pad_producer_def shape_def split: if_splits)

lemma stft_invalid_scaling:
  assumes "scaling \<noteq> ''spectrum''" and "scaling \<noteq> ''density''" and "fs \<noteq> 0" and "0 < nfft"
    and "overlap < 1" and "0 < stride nfft overlap" and "stride nfft overlap \<le> int nfft"
    and "0 < chunksize pro"
  shows "\<exists>f t n data. stft_data pro nfft overlap boundary padded = Inr data \<and>
           shape data = shape pro + (if boundary then 2 * (nfft div 2) else 0) +
             (if padded \<and> int (shape pro) mod stride nfft overlap \<noteq> 0
              then nat (stride nfft overlap) else 0) \<and>
           stft lib pro fs nfft window overlap detrend_type scaling boundary padded =
             Inr (f, t, n, Some ([], if nfft \<le> shape data then Raised ValueError else Completed))"
proof -
  let ?func = "\<lambda>x. map_sum id snd (modified_dft lib x fs nfft window detrend_type scaling)"
  let ?s = "nat (stride nfft overlap)"
  have f: "?func w = Inl ValueError" for w
    by (simp add: modified_dft_invalid(1) [OF assms(1-4)])
  have s: "0 < ?s" using assms(6) by simp
  have r: "run_windows ?func (windows_of nfft ?s q) =
          ([], if nfft \<le> length q then Raised ValueError else Completed)" for q
    using run_windows_failing [of ?func ValueError, OF f]
      windows_of_empty [OF s assms(4), of q]
    by auto
  from stft_closed [OF assms(3-8), where lib = lib and window = window and
      detrend_type = detrend_type and scaling = scaling and boundary = boundary and padded = padded]
  obtain data f t n where d: "stft_data pro nfft overlap boundary padded = Inr data"
    and "stft lib pro fs nfft window overlap detrend_type scaling boundary padded =
           Inr (f, t, n, Some (run_windows ?func (windows_of nfft ?s (pdata data))))"
    by blast
  then have "stft lib pro fs nfft window overlap detrend_type scaling boundary padded =
           Inr (f, t, n, Some ([], if nfft \<le> shape data then Raised ValueError else Completed))"
    by (simp add: r shape_def)
  with d shape_stft_data [OF d] show ?thesis by blast
qed

lemma oa_loop_invalid_mode:
  assumes "mode \<notin> set modes" and "1 < nsegments"
  shows "oa_loop win mode nfft L nsegments b 0 ov None (c # cs) = ([], Raised ValueError)"
  using assms by (simp add: oa_body_def oa_mode_def Let_def)

lemma nsegments_gt_1:
  assumes "0 < (L::nat)" and "L < N"
  shows "1 < (N + L - 1) div L"
proof -
  have "2 * L \<le> N + L - 1" using assms by linarith
  then have "(2 * L) div L \<le> (N + L - 1) div L" by (rule div_le_mono)
  then show ?thesis using assms(1) by simp
qed

lemma oaconvolve_invalid_mode:
  assumes "mode \<notin> set modes" and "win \<noteq> []"
    and "optimal_nffts (length win) + 1 - length win < shape pro"
  shows "oaconvolve None pro win mode =
           ([], Raised ValueError, pro\<lparr>chunksize := optimal_nffts (length win) + 1 - length win\<rparr>)"
proof -
  let ?L = "optimal_nffts (length win) + 1 - length win"
  have L: "0 < ?L" and n: "optimal_nffts (length win) \<noteq> 0"
    using block_stride_pos [OF assms(2)] by simp_all
  have ne: "pdata pro \<noteq> []" using assms(3) by (auto simp: shape_def)
  have it: "iterate (pro\<lparr>chunksize := ?L\<rparr>) = take ?L (pdata pro) # chop ?L (drop ?L (pdata pro))"
    using ne L by (simp add: iterate_def chop_Cons)
  have ns: "1 < (shape pro + ?L - 1) div ?L" using nsegments_gt_1 [OF L assms(3)] .
  have "oa_loop win mode (optimal_nffts (length win)) ?L ((shape pro + ?L - 1) div ?L) None 0
          (replicate (length win - 1) 0) None (iterate (pro\<lparr>chunksize := ?L\<rparr>)) =
        ([], Raised ValueError)"
    unfolding it by (rule oa_loop_invalid_mode [OF assms(1) ns])
  then show ?thesis
    using n by (simp add: oaconvolve_def Let_def)
qed

lemma oaconvolve_empty:
  assumes "win \<noteq> []" and "pdata pro = []"
  shows "oaconvolve None pro win mode = ([], Completed, pro)"
  using block_stride_pos(2) [OF assms(1)] assms(2)
  by (simp add: oaconvolve_def Let_def iterate_def)

text \<open>
  Claim C6, as the code has it. \<open>polyphase_resample\<close> rejects \<open>M \<ge> N\<close> in its first
  statement, whatever the other arguments. \<open>oaconvolve\<close> checks the mode in \<open>_oa_mode\<close>,
  on the first segment: for a signal of more than one block an unknown mode raises
  ValueError before anything is yielded, the producer's chunksize being already set to
  the block stride; for an empty signal the loop body never runs and nothing is raised.
  The spectral estimators check \<open>scaling\<close> in \<open>modified_dft\<close>, window by window. With
  \<open>1 \<le> nfft < 2 ^ 53\<close>, an overlap that is a float in \<open>[0, 1)\<close> and a sampling rate other
  than 0, an unknown scaling yields nothing, and raises ValueError at the first window
  exactly when the stream windowed has at least \<open>nfft\<close> samples: for \<open>welch\<close> that stream
  is the producer, for \<open>stft\<close> it is the producer after padding, which has \<open>nfft div 2\<close>
  more samples on each side when \<open>boundary\<close> is set and one stride more when \<open>padded\<close> is
  set and the stride does not divide the length of the producer. A windowed stream
  shorter than \<open>nfft\<close> raises nothing.
\<close>

theorem invalid_configuration_errors:
  "(N \<le> M \<longrightarrow> polyphase_csize L M csize0 N = Inl ValueError) \<and>
   (mode \<notin> set modes \<and> win \<noteq> [] \<and>
    optimal_nffts (length win) + 1 - length win < shape pro \<longrightarrow>
      oaconvolve None pro win mode =
        ([], Raised ValueError,
         pro\<lparr>chunksize := optimal_nffts (length win) + 1 - length win\<rparr>)) \<and>
   (win \<noteq> [] \<and> pdata pro = [] \<longrightarrow> oaconvolve None pro win mode = ([], Completed, pro)) \<and>
   (scaling \<noteq> ''spectrum'' \<and> scaling \<noteq> ''density'' \<and> fs \<noteq> 0 \<and> 0 < nfft \<and> nfft < 2 ^ 53 \<and>
    0 \<le> overlap \<and> overlap < 1 \<and> round_double overlap = overlap \<and> 0 < chunksize pro \<longrightarrow>
      (\<exists>f n. welch lib pro fs nfft window overlap detrend_type scaling =
                Inr (f, n, Some ([], if nfft \<le> shape pro then Raised ValueError
                                     else Completed))) \<and>
      (\<exists>f t n data.
         stft_data pro nfft overlap boundary padded = Inr data \<and>
         shape data = shape pro + (if boundary then 2 * (nfft div 2) else 0) +
           (if padded \<and> int (shape pro) mod stride nfft overlap \<noteq> 0
            then nat (stride nfft overlap) else 0) \<and>
         stft lib pro fs nfft window overlap detrend_type scaling boundary padded =
           Inr (f, t, n, Some ([], if nfft \<le> shape data then Raised ValueError
                                   else Completed))))"
proof -
  have a: "N \<le> M \<longrightarrow> polyphase_csize L M csize0 N = Inl ValueError"
    by (simp add: polyphase_csize_def)
  have b: "mode \<notin> set modes \<and> win \<noteq> [] \<and>
    optimal_nffts (length win) + 1 - length win < shape pro \<longrightarrow>
      oaconvolve None pro win mode =
        ([], Raised ValueError,
         pro\<lparr>chunksize := optimal_nffts (length win) + 1 - length win\<rparr>)"
    using oaconvolve_invalid_mode by blast
  have c: "win \<noteq> [] \<and> pdata pro = [] \<longrightarrow> oaconvolve None pro win mode = ([], Completed, pro)"
    using oaconvolve_empty by blast
  have d: "(\<exists>f n. welch lib pro fs nfft window overlap detrend_type scaling =
                Inr (f, n, Some ([], if nfft \<le> shape pro then Raised ValueError
                                     else Completed))) \<and>
      (\<exists>f t n data.
         stft_data pro nfft overlap boundary padded = Inr data \<and>
         shape data = shape pro + (if boundary then 2 * (nfft div 2) else 0) +
           (if padded \<and> int (shape pro) mod stride nfft overlap \<noteq> 0
            then nat (stride nfft overlap) else 0) \<and>
         stft lib pro fs nfft window overlap detrend_type scaling boundary padded =
           Inr (f, t, n, Some ([], if nfft \<le> shape data then Raised ValueError
                                   else Completed)))"
    if h: "scaling \<noteq> ''spectrum''" "scaling \<noteq> ''density''" "fs \<noteq> 0" "0 < nfft" "nfft < 2 ^ 53"
      "0 \<le> overlap" "overlap < 1" "round_double overlap = overlap" "0 < chunksize pro"
  proof -
    note st = stride_bounds [OF h(4-8)]
    have "\<exists>f n. welch lib pro fs nfft window overlap detrend_type scaling =
                Inr (f, n, Some ([], if nfft \<le> shape pro then Raised ValueError
                                     else Completed))"
      using welch_invalid_scaling [OF h(1-4,7) st(1,2) h(9)] by blast
    moreover note stft_invalid_scaling [OF h(1-4,7) st(1,2) h(9)]
    ultimately show ?thesis by blast
  qed
  from a b c d show ?thesis by blast
qed

text \<open>
  An instance of each clause; the last two are the same 3 samples at \<open>nfft = 4\<close>: \<open>welch\<close>
  raises nothing, \<open>stft\<close> with \<open>boundary\<close> set windows 7 samples and raises.
\<close>

theorem invalid_configuration_errors_witness:
  "polyphase_csize 1 10 1000 10 = Inl ValueError \<and>
   oaconvolve None \<lparr>pdata = [1, 2, 3, 4, 5, 6, 7, 8, 9], axis = 0, chunksize = 4\<rparr> [2] ''bogus'' =
     ([], Raised ValueError, \<lparr>pdata = [1, 2, 3, 4, 5, 6, 7, 8, 9], axis = 0, chunksize = 8\<rparr>) \<and>
   (\<exists>f n. welch sample_lib \<lparr>pdata = [1, 2, 3, 4, 5, 6, 7, 8, 9], axis = 0, chunksize = 4\<rparr> 1 4
             ''boxcar'' (1 / 4) ''constant'' ''bogus'' = Inr (f, n, Some ([], Raised ValueError))) \<and>
   (\<exists>f n. welch sample_lib \<lparr>pdata = [1, 2, 3], axis = 0, chunksize = 2\<rparr> 1 4
             ''boxcar'' 0 ''constant'' ''bogus'' = Inr (f, n, Some ([], Completed))) \<and>
   (\<exists>f t n. stft sample_lib \<lparr>pdata = [1, 2, 3], axis = 0, chunksize = 2\<rparr> 1 4
             ''boxcar'' 0 ''constant'' ''bogus'' True False
               = Inr (f, t, n, Some ([], Raised ValueError)))"
proof -
  let ?P = "\<lparr>pdata = [1, 2, 3, 4, 5, 6, 7, 8, 9 :: real], axis = 0, chunksize = 4\<rparr>"
  let ?Q = "\<lparr>pdata = [1, 2, 3 :: real], axis = 0, chunksize = 2\<rparr>"
  have n: "optimal_nffts (length [2::real]) + 1 - length [2::real] = 8" by code_simp
  have m: "''bogus'' \<notin> set modes" by (simp add: modes_def)
  have r: "round_double (1 / 4) = 1 / 4" and r0: "round_double 0 = 0" by code_simp+
  have k: "(4::nat) < 2 ^ 53" by simp
  have h: "''bogus'' \<noteq> ''spectrum''" "''bogus'' \<noteq> ''density''" "(1::real) \<noteq> 0" "(0::nat) < 4"
    "(0::rat) \<le> 1 / 4" "(1 / 4 :: rat) < 1" "0 < chunksize ?P" "(10::nat) \<le> 10" "[2::real] \<noteq> []"
    "(0::rat) \<le> 0" "(0::rat) < 1" "0 < chunksize ?Q"
    by simp_all
  have sh: "optimal_nffts (length [2::real]) + 1 - length [2::real] < shape ?P"
    unfolding n by (simp add: shape_def)
  note T = invalid_configuration_errors [of 10 10 1 1000 "''bogus''" "[2]" ?P "''bogus''" 1 4
      "1 / 4" sample_lib "''boxcar''" "''constant''" False False]
  note U = invalid_configuration_errors [of 10 10 1 1000 "''bogus''" "[2]" ?Q "''bogus''" 1 4
      0 sample_lib "''boxcar''" "''constant''" True False]
  have a: "polyphase_csize 1 10 1000 10 = Inl ValueError" using T h(8) by blast
  have "oaconvolve None ?P [2] ''bogus'' =
        ([], Raised ValueError,
         ?P\<lparr>chunksize := optimal_nffts (length [2::real]) + 1 - length [2::real]\<rparr>)"
    using T m h(9) sh by blast
  then have b: "oaconvolve None ?P [2] ''bogus'' =
        ([], Raised ValueError, \<lparr>pdata = [1, 2, 3, 4, 5, 6, 7, 8, 9], axis = 0, chunksize = 8\<rparr>)"
    unfolding n by simp
  have s4: "4 \<le> shape ?P" and s3: "\<not> 4 \<le> shape ?Q" by (simp_all add: shape_def)
  have "\<exists>f n. welch sample_lib ?P 1 4 ''boxcar'' (1 / 4) ''constant'' ''bogus'' =
                Inr (f, n, Some ([], if 4 \<le> shape ?P then Raised ValueError else Completed))"
    using T h(1-7) r k by blast
  then have c: "\<exists>f n. welch sample_lib ?P 1 4 ''boxcar'' (1 / 4) ''constant'' ''bogus'' =
                Inr (f, n, Some ([], Raised ValueError))"
    unfolding if_P [OF s4] .
  have "\<exists>f n. welch sample_lib ?Q 1 4 ''boxcar'' 0 ''constant'' ''bogus'' =
                Inr (f, n, Some ([], if 4 \<le> shape ?Q then Raised ValueError else Completed))"
    using U h(1-4,10-12) r0 k by blast
  then have d: "\<exists>f n. welch sample_lib ?Q 1 4 ''boxcar'' 0 ''constant'' ''bogus'' =
                Inr (f, n, Some ([], Completed))"
    unfolding if_not_P [OF s3] .
  have "\<exists>f t n data.
         stft_data ?Q 4 0 True False = Inr data \<and>
         shape data = shape ?Q + (if True then 2 * (4 div 2) else 0) +
           (if False \<and> int (shape ?Q) mod stride 4 0 \<noteq> 0 then nat (stride 4 0) else 0) \<and>
         stft sample_lib ?Q 1 4 ''boxcar'' 0 ''constant'' ''bogus'' True False =
           Inr (f, t, n, Some ([], if 4 \<le> shape data then Raised ValueError else Completed))"
    using U h(1-4,10-12) r0 k by blast
  then obtain f t n data where sd: "shape data = shape ?Q + (if True then 2 * (4 div 2) else 0) +
           (if False \<and> int (shape ?Q) mod stride 4 0 \<noteq> 0 then nat (stride 4 0) else 0)"
    and st: "stft sample_lib ?Q 1 4 ''boxcar'' 0 ''constant'' ''bogus'' True False =
           Inr (f, t, n, Some ([], if 4 \<le> shape data then Raised ValueError else Completed))"
    by blast
  from sd have "shape data = 7" by (simp add: shape_def)
  with st have "stft sample_lib ?Q 1 4 ''boxcar'' 0 ''constant'' ''bogus'' True False =
           Inr (f, t, n, Some ([], Raised ValueError))" by simp
  then have e: "\<exists>f t n. stft sample_lib ?Q 1 4 ''boxcar'' 0 ''constant'' ''bogus'' True False =
           Inr (f, t, n, Some ([], Raised ValueError))" by blast
  from a b c d e show ?thesis by blast
qed

text \<open>
  Claim C6 as stated fails: the same invalid scaling raises nothing on a stream of 3
  samples and raises on a stream of 4 samples that starts with the same chunk
  (\<open>nfft = 4\<close>, chunksize 2), so the check does not precede the processing of the
  chunks; and an invalid mode raises nothing on an empty signal.
\<close>

theorem invalid_configuration_not_up_front:
  "welch sample_lib \<lparr>pdata = [1, 2, 3], axis = 0, chunksize = 2\<rparr> 1 4 ''boxcar'' 0
      ''constant'' ''bogus'' = Inr (rfftfreq 4 1, 0, Some ([], Completed)) \<and>
   welch sample_lib \<lparr>pdata = [1, 2, 3, 4], axis = 0, chunksize = 2\<rparr> 1 4 ''boxcar'' 0
      ''constant'' ''bogus'' = Inr (rfftfreq 4 1, 1, Some ([], Raised ValueError)) \<and>
   oaconvolve None \<lparr>pdata = [], axis = 0, chunksize = 2\<rparr> [1] ''bogus'' =
     ([], Completed, \<lparr>pdata = [], axis = 0, chunksize = 2\<rparr>)"
proof -
  let ?P3 = "\<lparr>pdata = [1, 2, 3 :: real], axis = 0, chunksize = 2\<rparr>"
  let ?P4 = "\<lparr>pdata = [1, 2, 3, 4 :: real], axis = 0, chunksize = 2\<rparr>"
  have n3: "nsegs (shape ?P3) 4 0 = 0" and n4: "nsegs (shape ?P4) 4 0 = 1" by code_simp+
  have s3: "\<not> 4 \<le> shape ?P3" and s4: "4 \<le> shape ?P4" by (simp_all add: shape_def)
  have st: "stride 4 0 = 4" by code_simp
  have a: "welch sample_lib ?P3 1 4 ''boxcar'' 0 ''constant'' ''bogus''
             = Inr (rfftfreq 4 1, 0, Some ([], Completed))"
    using welch_invalid_scaling [of "''bogus''" 1 4 0 ?P3 sample_lib "''boxcar''" "''constant''"]
    by (simp add: n3 s3 st)
  have b: "welch sample_lib ?P4 1 4 ''boxcar'' 0 ''constant'' ''bogus''
             = Inr (rfftfreq 4 1, 1, Some ([], Raised ValueError))"
    using welch_invalid_scaling [of "''bogus''" 1 4 0 ?P4 sample_lib "''boxcar''" "''constant''"]
    by (simp add: n4 s4 st)
  have c: "oaconvolve None \<lparr>pdata = [], axis = 0, chunksize = 2\<rparr> [1] ''bogus'' =
     ([], Completed, \<lparr>pdata = [], axis = 0, chunksize = 2\<rparr>)"
    using oaconvolve_empty [of "[1]" "\<lparr>pdata = [], axis = 0, chunksize = 2\<rparr>" "''bogus''"] by simp
  from a b c show ?thesis by simp
qed

subsection \<open>Overlap-add: the length of the output\<close>

lemma blocks_ok_chop: "0 < L \<Longrightarrow> blocks_ok L (chop L xs)"
proof (induction L xs rule: chop.induct)
  case (1 n xs)
  show ?case
  proof (cases "xs = []")
    case True
    then show ?thesis by simp
  next
    case False
    note ne = this
    show ?thesis
    proof (cases "drop n xs = []")
      case True
      with ne 1 show ?thesis by (simp add: chop_Cons)
    next
      case False
      with 1 ne have ih: "blocks_ok n (chop n (drop n xs))" by simp
      from False 1 have "chop n (drop n xs) = take n (drop n xs) # chop n (drop n (drop n xs))"
        by (intro chop_Cons) simp_all
      then obtain c cs where c: "chop n (drop n xs) = c # cs" by blast
      from False have "length (take n xs) = n" by simp
      with ih c ne 1 show ?thesis by (simp add: chop_Cons [of n xs])
    qed
  qed
qed

lemma length_chop: "0 < L \<Longrightarrow> length (chop L xs) = (length xs + L - 1) div L"
proof (induction L xs rule: chop.induct)
  case (1 n xs)
  show ?case
  proof (cases "xs = []")
    case True
    with 1 show ?thesis by simp
  next
    case False
    with 1 have ih: "length (chop n (drop n xs)) = (length xs - n + n - 1) div n" by simp
    show ?thesis
    proof (cases "n \<le> length xs")
      case True
      then have "length xs + n - 1 = (length xs - n + n - 1) + n" using 1 by linarith
      then have "(length xs + n - 1) div n = (length xs - n + n - 1) div n + 1"
        using 1 by (metis div_add_self2 less_numeral_extra(3))
      with ih False 1 show ?thesis by (simp add: chop_Cons [of n xs])
    next
      case b: False
      with False have "n \<le> length xs + n - 1" "length xs + n - 1 < 2 * n"
        by (cases xs; simp)+
      then have "(length xs + n - 1) div n = 1" by (intro div_nat_eqI) simp_all
      with b False 1 show ?thesis by (simp add: chop_Cons [of n xs])
    qed
  qed
qed

lemma length_circ_conv [simp]: "length (circ_conv n xs hs) = n"
  by (simp add: circ_conv_def Let_def)

lemma length_add_overlap:
  "length ov = m \<Longrightarrow> m \<le> length y \<Longrightarrow> length (add_overlap m y ov) = length y"
  by (simp add: add_overlap_def)

lemma int_half: "0 < M \<Longrightarrow> (int M - 1) div 2 = int ((M - 1) div 2)"
  by (simp add: zdiv_int of_nat_diff)

lemma oa_mode_first:
  assumes "mode \<in> set modes" and "0 < M"
  shows "\<exists>y'. oa_mode y 0 M mode = Inr y' \<and> length y' = length y - mode_trim M mode"
proof -
  have a: "int M - 1 = int (M - 1)" using assms(2) by (simp add: of_nat_diff)
  from assms(1) consider "mode = ''full''" | "mode = ''same''" | "mode = ''valid''"
    by (auto simp: modes_def)
  then show ?thesis
  proof cases
    case 1
    then show ?thesis
      by (simp add: oa_mode_def modes_def cuts_def mode_trim_def py_slice_def py_start_def py_stop_def)
  next
    case 2
    then show ?thesis
      using assms(2)
      by (simp add: oa_mode_def modes_def cuts_def mode_trim_def py_slice_def py_start_def py_stop_def
          py_index_def int_half)
  next
    case 3
    then show ?thesis
      by (simp add: oa_mode_def modes_def cuts_def mode_trim_def py_slice_def py_start_def py_stop_def
          py_index_def a)
  qed
qed

lemma oa_mode_later:
  assumes "mode \<in> set modes" and "0 < M" and "0 < idx" and "mode_trim M mode \<le> length y"
  shows "\<exists>y'. oa_mode y idx M mode = Inr y' \<and> length y' = length y - mode_trim M mode"
proof -
  from assms(1) consider "mode = ''full''" | "mode = ''same''" | "mode = ''valid''"
    by (auto simp: modes_def)
  then show ?thesis
  proof cases
    case 1
    then show ?thesis
      using assms(3)
      by (simp add: oa_mode_def modes_def cuts_def mode_trim_def py_slice_def py_start_def py_stop_def)
  next
    case 2
    with assms(4) have h: "(M - 1) div 2 \<le> length y" by (simp add: mode_trim_def)
    then have b: "int (length y) - int ((M - 1) div 2) = int (length y - (M - 1) div 2)"
      by (simp add: of_nat_diff)
    from 2 show ?thesis
      using assms(2,3) h
      by (simp add: oa_mode_def modes_def cuts_def mode_trim_def py_slice_def py_start_def py_stop_def
          py_index_def int_half b)
  next
    case 3
    with assms(4) have h: "M - 1 \<le> length y" by (simp add: mode_trim_def)
    then have b: "int (length y) - int M + 1 = int (length y - (M - 1))"
      using assms(2) by (simp add: of_nat_diff)
    from 3 show ?thesis
      using assms(3) h
      by (simp add: oa_mode_def modes_def cuts_def mode_trim_def py_slice_def py_start_def py_stop_def
          py_index_def b)
  qed
qed

lemma mode_trim_le: "mode_trim M mode \<le> M - 1"
  by (simp add: mode_trim_def)

lemma oa_body_first:
  assumes "mode \<in> set modes" and "0 < length win" and "nfft = L + length win - 1"
    and "length win - 1 \<le> L" and "length ov = length win - 1" and "1 < nseg"
  shows "\<exists>y ov'. oa_body win mode nfft L nseg 0 ov nov c = Inr (y, ov', Some ov') \<and>
           length y = L - mode_trim (length win) mode \<and> length ov' = length win - 1"
proof -
  let ?y = "circ_conv nfft (pad_along_axis c 0 (length win - 1)) win"
  let ?y2 = "add_overlap (length win - 1) (take L ?y) ov"
  have "L \<le> nfft" using assms(2,3) by linarith
  then have "length (take L ?y) = L" by simp
  then have l2: "length ?y2 = L" using assms(4,5) by (simp only: length_add_overlap)
  from oa_mode_first [OF assms(1,2), of ?y2] obtain y' where
    m: "oa_mode ?y2 0 (length win) mode = Inr y'"
    and ly: "length y' = L - mode_trim (length win) mode" using l2 by auto
  have "oa_body win mode nfft L nseg 0 ov nov c = Inr (y', drop L ?y, Some (drop L ?y))"
    using assms(6) m by (simp add: oa_body_def Let_def)
  moreover have "length (drop L ?y) = length win - 1" using assms(3) by simp
  ultimately show ?thesis using ly by blast
qed

lemma oa_body_mid:
  assumes "0 < length win" and "nfft = L + length win - 1"
    and "length win - 1 \<le> L" and "length ov = length win - 1" and "0 < k" and "k + 1 < nseg"
  shows "\<exists>y ov'. oa_body win mode nfft L nseg k ov nov c = Inr (y, ov', Some ov') \<and>
           length y = L \<and> length ov' = length win - 1"
proof -
  let ?y = "circ_conv nfft (pad_along_axis c 0 (length win - 1)) win"
  let ?y2 = "add_overlap (length win - 1) (take L ?y) ov"
  have "L \<le> nfft" using assms(1,2) by linarith
  then have "length (take L ?y) = L" by simp
  then have l2: "length ?y2 = L" using assms(3,4) by (simp only: length_add_overlap)
  have "oa_body win mode nfft L nseg k ov nov c = Inr (?y2, drop L ?y, Some (drop L ?y))"
    using assms(5,6) by (simp add: oa_body_def Let_def)
  moreover have "length (drop L ?y) = length win - 1" using assms(2) by simp
  ultimately show ?thesis using l2 by blast
qed

lemma oa_body_last:
  assumes "mode \<in> set modes" and "0 < length win" and "nfft = L + length win - 1"
    and "length ov = length win - 1" and "0 < k" and "k + 1 = nseg" and "length c \<le> L"
  shows "\<exists>y. oa_body win mode nfft L nseg k ov (Some ov0) c = Inr (y, ov0, Some ov0) \<and>
           length y = length c + length win - 1 - mode_trim (length win) mode"
proof -
  let ?y = "circ_conv nfft (pad_along_axis c 0 (length win - 1)) win"
  let ?y1 = "take (length c + length win - 1) ?y"
  let ?y2 = "add_overlap (length win - 1) ?y1 ov"
  have l1: "length ?y1 = length c + length win - 1" using assms(3,7) by simp
  have l2: "length ?y2 = length c + length win - 1"
    using assms(4) l1 by (simp add: length_add_overlap)
  have "mode_trim (length win) mode \<le> length ?y2" using mode_trim_le [of "length win" mode] l2 by linarith
  from oa_mode_later [OF assms(1,2,5) this] obtain y' where
    m: "oa_mode ?y2 k (length win) mode = Inr y'"
    and ly: "length y' = length c + length win - 1 - mode_trim (length win) mode" using l2 by auto
  have "oa_body win mode nfft L nseg k ov (Some ov0) c = Inr (y', ov0, Some ov0)"
    using assms(6) m by (simp add: oa_body_def Let_def slice_along_axis_0)
  then show ?thesis using ly by blast
qed

lemma oa_loop_tail:
  assumes "mode \<in> set modes" and "0 < length win" and "nfft = L + length win - 1"
    and "length win - 1 \<le> L"
  shows "cs \<noteq> [] \<Longrightarrow> blocks_ok L cs \<Longrightarrow> 0 < k \<Longrightarrow> k + length cs = nseg \<Longrightarrow>
         length ov = length win - 1 \<Longrightarrow>
         \<exists>ys. oa_loop win mode nfft L nseg None k ov (Some ov0) cs = (ys, Completed) \<and>
              length (concat ys) = length (concat cs) + length win - 1 - mode_trim (length win) mode"
proof (induction cs arbitrary: k ov ov0)
  case Nil
  then show ?case by simp
next
  case (Cons c rest)
  show ?case
  proof (cases rest)
    case Nil
    with Cons.prems have "k + 1 = nseg" and "length c \<le> L" by simp_all
    from oa_body_last [OF assms(1-3) \<open>length ov = length win - 1\<close> \<open>0 < k\<close> this, of ov0]
    obtain y where "oa_body win mode nfft L nseg k ov (Some ov0) c = Inr (y, ov0, Some ov0)"
      and "length y = length c + length win - 1 - mode_trim (length win) mode" by blast
    with Nil show ?thesis by (simp add: stop_after_def spend_def)
  next
    case (Cons c' cs)
    with Cons.prems have k: "k + 1 < nseg" and lc: "length c = L" and ok: "blocks_ok L rest"
      and ne: "rest \<noteq> []" and sk: "Suc k + length rest = nseg"
      by simp_all
    from oa_body_mid [OF assms(2-4) \<open>length ov = length win - 1\<close> \<open>0 < k\<close> k, of mode "Some ov0" c]
    obtain y ov' where
      b: "oa_body win mode nfft L nseg k ov (Some ov0) c = Inr (y, ov', Some ov')"
      and ly: "length y = L" and lo: "length ov' = length win - 1" by blast
    have "0 < Suc k" by simp
    from Cons.IH [OF ne ok this sk lo, of ov'] obtain ys where
      l: "oa_loop win mode nfft L nseg None (Suc k) ov' (Some ov') rest = (ys, Completed)"
      and n: "length (concat ys) = length (concat rest) + length win - 1 - mode_trim (length win) mode"
      by blast
    have "mode_trim (length win) mode \<le> length (concat rest) + length win - 1"
      using mode_trim_le [of "length win" mode] by linarith
    moreover have "1 \<le> length win" using assms(2) by linarith
    moreover have "length (concat (c # rest)) = L + length (concat rest)" using lc by simp
    ultimately have "length y + length (concat ys) =
        length (concat (c # rest)) + length win - 1 - mode_trim (length win) mode"
      using n ly by linarith
    moreover have "oa_loop win mode nfft L nseg None k ov (Some ov0) (c # rest) = (y # ys, Completed)"
      using b l by (simp add: stop_after_def spend_def)
    ultimately show ?thesis by simp
  qed
qed

text \<open>
  Claim C2 fails on the code. For a signal of more than one block (\<open>N > L\<close>) and a valid
  mode, the iteration completes, restores the producer, and the concatenated output
  has \<open>N + M - 1\<close> samples in mode \<open>full\<close> and \<open>N - M + 1\<close> in mode \<open>valid\<close>; in mode
  \<open>same\<close> it has \<open>N\<close> samples for an odd kernel length but \<open>N + 1\<close> for an even one:
  \<open>_oa_mode\<close> trims \<open>(M - 1) div 2\<close> samples at both ends, where \<open>convolve_slicer\<close> (and
  numpy) keep \<open>N\<close> samples from \<open>(M - 1) div 2\<close> on.
\<close>

theorem oaconvolve_output_length:
  assumes "win \<noteq> []" and "mode \<in> set modes"
    and "optimal_nffts (length win) + 1 - length win < shape pro"
  shows "\<exists>ys. oaconvolve None pro win mode = (ys, Completed, pro) \<and>
           length (concat ys) =
             (if mode = ''full'' then shape pro + length win - 1
              else if mode = ''valid'' then shape pro - length win + 1
              else if odd (length win) then shape pro
              else shape pro + 1)"
proof -
  let ?M = "length win" and ?nfft = "optimal_nffts (length win)" and ?xs = "pdata pro"
  let ?L = "?nfft + 1 - ?M"
  let ?nseg = "(shape pro + ?L - 1) div ?L"
  let ?ov = "replicate (?M - 1) (0::real)"
  have M: "0 < ?M" using assms(1) by simp
  have big: "8 * ?M \<le> ?nfft" using optimal_nffts_ge [OF M] .
  have L: "0 < ?L" and n0: "?nfft \<noteq> 0" using block_stride_pos [OF assms(1)] by simp_all
  have nf: "?nfft = ?L + ?M - 1" using big M by linarith
  have ml: "?M - 1 \<le> ?L" using big M by linarith
  have N: "?L < length ?xs" using assms(3) by (simp add: shape_def)
  then have ne: "?xs \<noteq> []" by auto
  define c0 where "c0 = take ?L ?xs"
  define cs where "cs = chop ?L (drop ?L ?xs)"
  have it: "iterate (pro\<lparr>chunksize := ?L\<rparr>) = c0 # cs"
    using ne L by (simp add: iterate_def chop_Cons c0_def cs_def)
  have dne: "drop ?L ?xs \<noteq> []" using N by simp
  have cne: "cs \<noteq> []" unfolding cs_def using chop_Cons [OF L dne] by simp
  have ok: "blocks_ok ?L cs" unfolding cs_def using blocks_ok_chop [OF L] .
  have ccs: "length (concat cs) = length ?xs - ?L"
    unfolding cs_def using concat_chop [OF L, of "drop ?L ?xs"] by simp
  have "length (chop ?L ?xs) = ?nseg" using length_chop [OF L, of ?xs] by (simp add: shape_def)
  then have ns: "Suc 0 + length cs = ?nseg"
    using chop_Cons [OF L ne] by (simp add: cs_def)
  with cne have ns1: "1 < ?nseg" by (cases cs) auto
  have lov: "length ?ov = ?M - 1" by simp
  from oa_body_first [OF assms(2) M nf ml lov ns1, of None c0] obtain y0 ov' where
    b: "oa_body win mode ?nfft ?L ?nseg 0 ?ov None c0 = Inr (y0, ov', Some ov')"
    and ly: "length y0 = ?L - mode_trim ?M mode" and lo: "length ov' = ?M - 1" by blast
  have "0 < Suc 0" by simp
  from oa_loop_tail [OF assms(2) M nf ml cne ok this ns lo, of ov'] obtain ys where
    l: "oa_loop win mode ?nfft ?L ?nseg None (Suc 0) ov' (Some ov') cs = (ys, Completed)"
    and ln: "length (concat ys) = length (concat cs) + ?M - 1 - mode_trim ?M mode" by blast
  have loop: "oa_loop win mode ?nfft ?L ?nseg None 0 ?ov None (iterate (pro\<lparr>chunksize := ?L\<rparr>))
                = (y0 # ys, Completed)"
    unfolding it using b l by (simp add: stop_after_def spend_def)
  have res: "oaconvolve None pro win mode = (y0 # ys, Completed, pro)"
    using n0 loop by (simp add: oaconvolve_def Let_def)
  have c1: "mode_trim ?M mode \<le> ?M - 1" by (rule mode_trim_le)
  have tot: "length (concat (y0 # ys)) = length ?xs + ?M - 1 - 2 * mode_trim ?M mode"
    using ly ln ccs c1 ml N M by simp
  from assms(2) consider "mode = ''full''" | "mode = ''same''" | "mode = ''valid''"
    by (auto simp: modes_def)
  then have "length (concat (y0 # ys)) =
             (if mode = ''full'' then shape pro + ?M - 1
              else if mode = ''valid'' then shape pro - ?M + 1
              else if odd ?M then shape pro
              else shape pro + 1)"
  proof cases
    case 1
    then show ?thesis using tot by (simp add: mode_trim_def shape_def)
  next
    case 2
    show ?thesis
    proof (cases "odd ?M")
      case True
      then have "2 * ((?M - 1) div 2) = ?M - 1" by presburger
      with 2 True tot M show ?thesis by (simp add: mode_trim_def shape_def)
    next
      case False
      with M have "2 * ((?M - 1) div 2) = ?M - 2" by presburger
      moreover from False M have "2 \<le> ?M" by presburger
      ultimately have "length ?xs + ?M - 1 - 2 * ((?M - 1) div 2) = length ?xs + 1" by linarith
      with 2 False tot show ?thesis by (simp add: mode_trim_def shape_def)
    qed
  next
    case 3
    have "?M \<le> length ?xs" using N big M by linarith
    then have "length ?xs + ?M - 1 - 2 * (?M - 1) = length ?xs - ?M + 1" using M by linarith
    with 3 tot show ?thesis by (simp add: mode_trim_def shape_def)
  qed
  with res show ?thesis by blast
qed

theorem oaconvolve_output_length_witness:
  "\<exists>ys. oaconvolve None
          \<lparr>pdata = [1, 2, 3, 4, 5, 6, 7, 8, 9, 10, 11, 12, 13, 14, 15, 16], axis = 0, chunksize = 5\<rparr>
          [1, 1] ''same''
        = (ys, Completed,
           \<lparr>pdata = [1, 2, 3, 4, 5, 6, 7, 8, 9, 10, 11, 12, 13, 14, 15, 16], axis = 0, chunksize = 5\<rparr>) \<and>
        length (concat ys) = 17"
proof -
  have n: "optimal_nffts (length [1, 1 :: real]) + 1 - length [1, 1 :: real] = 15" by code_simp
  have m: "''same'' \<in> set modes" by (simp add: modes_def)
  have sh: "shape \<lparr>pdata = [1, 2, 3, 4, 5, 6, 7, 8, 9, 10, 11, 12, 13, 14, 15, 16], axis = 0,
                   chunksize = 5\<rparr> = 16"
    by (simp add: shape_def)
  from oaconvolve_output_length [of "[1, 1]" "''same''"
      "\<lparr>pdata = [1, 2, 3, 4, 5, 6, 7, 8, 9, 10, 11, 12, 13, 14, 15, 16], axis = 0, chunksize = 5\<rparr>"]
    n m
  show ?thesis by (simp add: sh)
qed

end
